theory Spec2Isabelle
  imports Main "HOL-Library.Word"
begin

unbundle bit_operations_syntax

section \<open>Bytes, bits and the library calls of the extractor\<close>

text \<open>
  The program \<^verbatim>\<open>curseforge_key_extractor.py\<close> is one function \<^verbatim>\<open>E\<close> and a
  main block. \<^verbatim>\<open>E\<close> calls \<^verbatim>\<open>requests.get\<close>, \<^verbatim>\<open>Response.raise_for_status\<close>,
  \<^verbatim>\<open>zlib.decompress\<close>, \<^verbatim>\<open>bytes.find\<close>, slicing and \<^verbatim>\<open>bytes.decode\<close>. A Python
  \<^verbatim>\<open>bytes\<close> object is a list of 8-bit words, a Python \<^verbatim>\<open>str\<close> a list of Unicode
  code points. The libraries are not part of the program: each call is modelled
  by what the library documents for it (zlib after RFC 1950 and RFC 1951, with
  the checks of its decoder; \<^verbatim>\<open>requests\<close> and the built-in types after their
  reference), and the network and the encoding of standard output are
  parameters of the model.
\<close>

type_synonym byte = "8 word"
type_synonym pystr = "nat list"

subsection \<open>\<^verbatim>\<open>zlib.decompress\<close> with its default arguments\<close>

text \<open>
  The source calls \<^verbatim>\<open>zlib.decompress(M)\<close> with no \<^verbatim>\<open>wbits\<close> argument, so the
  library expects the zlib container (RFC 1950): a two-byte header, a deflate
  stream (RFC 1951) and a big-endian Adler-32 of the decompressed data. The
  deflate decoder reads the input as a stream of bits, least significant bit of
  each byte first.
\<close>

definition bits_of_byte :: "byte \<Rightarrow> bool list" where
  "bits_of_byte b = map (bit b) [0..<8]"

definition bits_of_bytes :: "byte list \<Rightarrow> bool list" where
  "bits_of_bytes bs = concat (map bits_of_byte bs)"

fun nat_of_bits :: "bool list \<Rightarrow> nat" where
  "nat_of_bits [] = 0"
| "nat_of_bits (b # bs) = (if b then 1 else 0) + 2 * nat_of_bits bs"

definition read_bits :: "nat \<Rightarrow> bool list \<Rightarrow> (nat \<times> bool list) option" where
  "read_bits n bs =
     (if length bs < n then None else Some (nat_of_bits (take n bs), drop n bs))"

text \<open>The input is a whole number of bytes, so the bits left over in the
  current byte are the remaining length modulo 8.\<close>

definition align_byte :: "bool list \<Rightarrow> bool list" where
  "align_byte bs = drop (length bs mod 8) bs"

subsubsection \<open>Canonical Huffman codes\<close>

text \<open>A code is given by the list of code lengths of its symbols (0: the symbol
  is unused). \<open>count_len\<close> is the number of symbols of one length, \<open>sorted_syms\<close> the
  used symbols ordered by length, then by value.\<close>

definition count_len :: "nat list \<Rightarrow> nat \<Rightarrow> nat" where
  "count_len lens l = length (filter (\<lambda>x. x = l) lens)"

definition sorted_syms :: "nat list \<Rightarrow> nat list" where
  "sorted_syms lens =
     concat (map (\<lambda>l. filter (\<lambda>s. lens ! s = l) [0..<length lens]) [1..<16])"

text \<open>Decoding reads one bit at a time; \<open>code\<close> is the code read so far, \<open>first\<close>
  the first code of length \<open>len\<close> and \<open>index\<close> the position of its symbol in
  \<open>sorted_syms\<close>. Running out of bits or of lengths is an error.\<close>

fun decode_sym ::
  "nat list \<Rightarrow> nat \<Rightarrow> nat \<Rightarrow> nat \<Rightarrow> nat \<Rightarrow> bool list \<Rightarrow> (nat \<times> bool list) option" where
  "decode_sym lens len code first index [] = None"
| "decode_sym lens len code first index (b # bs) =
     (if 15 < len then None
      else let code' = code + (if b then 1 else 0); cnt = count_len lens len
           in if code' < first + cnt
              then Some (sorted_syms lens ! (index + (code' - first)), bs)
              else decode_sym lens (Suc len) (2 * code') (2 * (first + cnt)) (index + cnt) bs)"

definition huff_decode :: "nat list \<Rightarrow> bool list \<Rightarrow> (nat \<times> bool list) option" where
  "huff_decode lens bs = decode_sym lens 1 0 0 0 bs"

text \<open>The library refuses an over-subscribed set of code lengths, and an
  incomplete one unless it is allowed for this table and has a single code of
  length 1; a table with no code at all is built (every code is then invalid).
  \<open>code_space\<close> is the number of codes of length 15 left unused, if the set is
  not over-subscribed.\<close>

fun code_space :: "nat list \<Rightarrow> nat \<Rightarrow> nat \<Rightarrow> nat \<Rightarrow> nat option" where
  "code_space lens len left 0 = Some left"
| "code_space lens len left (Suc k) =
     (if 2 * left < count_len lens len then None
      else code_space lens (Suc len) (2 * left - count_len lens len) k)"

definition max_len :: "nat list \<Rightarrow> nat" where
  "max_len lens = fold max lens 0"

datatype table_kind = CODES | LENS | DISTS

definition table_ok :: "table_kind \<Rightarrow> nat list \<Rightarrow> bool" where
  "table_ok kind lens =
     (if max_len lens = 0 then True
      else case code_space lens 1 1 15 of
             None \<Rightarrow> False
           | Some left \<Rightarrow> \<not> (0 < left \<and> (kind = CODES \<or> max_len lens \<noteq> 1)))"

subsubsection \<open>Length and distance symbols\<close>

definition length_base :: "nat list" where
  "length_base = [3, 4, 5, 6, 7, 8, 9, 10, 11, 13, 15, 17, 19, 23, 27, 31,
                  35, 43, 51, 59, 67, 83, 99, 115, 131, 163, 195, 227, 258]"

definition length_extra :: "nat list" where
  "length_extra = [0, 0, 0, 0, 0, 0, 0, 0, 1, 1, 1, 1, 2, 2, 2, 2,
                   3, 3, 3, 3, 4, 4, 4, 4, 5, 5, 5, 5, 0]"

definition dist_base :: "nat list" where
  "dist_base = [1, 2, 3, 4, 5, 7, 9, 13, 17, 25, 33, 49, 65, 97, 129, 193,
                257, 385, 513, 769, 1025, 1537, 2049, 3073, 4097, 6145,
                8193, 12289, 16385, 24577]"

definition dist_extra :: "nat list" where
  "dist_extra = [0, 0, 0, 0, 1, 1, 2, 2, 3, 3, 4, 4, 5, 5, 6, 6,
                 7, 7, 8, 8, 9, 9, 10, 10, 11, 11, 12, 12, 13, 13]"

text \<open>A match copies \<open>len\<close> bytes starting \<open>dist\<close> bytes back in the output; the
  source and the destination may overlap, so the copy is byte by byte.\<close>

fun copy_match :: "byte list \<Rightarrow> nat \<Rightarrow> nat \<Rightarrow> byte list" where
  "copy_match out dist 0 = out"
| "copy_match out dist (Suc n) = copy_match (out @ [out ! (length out - dist)]) dist n"

definition read_match ::
  "nat list \<Rightarrow> nat \<Rightarrow> byte list \<Rightarrow> bool list \<Rightarrow> (byte list \<times> bool list) option" where
  "read_match dlens s out bs =
     (if 285 < s then None
      else case read_bits (length_extra ! (s - 257)) bs of
        None \<Rightarrow> None
      | Some (le, bs1) \<Rightarrow>
         (case huff_decode dlens bs1 of
            None \<Rightarrow> None
          | Some (dsym, bs2) \<Rightarrow>
             if 29 < dsym then None
             else (case read_bits (dist_extra ! dsym) bs2 of
                None \<Rightarrow> None
              | Some (de, bs3) \<Rightarrow>
                 let dist = dist_base ! dsym + de
                 in if length out < dist then None
                    else Some (copy_match out dist (length_base ! (s - 257) + le), bs3))))"

lemma read_bits_length:
  "read_bits n bs = Some (v, r) \<Longrightarrow> n \<le> length bs \<and> length r = length bs - n"
  by (auto simp: read_bits_def split: if_splits)

lemma decode_sym_shorter:
  "decode_sym lens len code first index bs = Some (s, r) \<Longrightarrow> length r < length bs"
proof (induction bs arbitrary: len code first index)
  case Nil
  then show ?case by simp
next
  case (Cons b bs)
  then show ?case
    by (fastforce simp: Let_def split: if_splits)
qed

lemma huff_decode_shorter:
  "huff_decode lens bs = Some (s, r) \<Longrightarrow> length r < length bs"
  unfolding huff_decode_def by (rule decode_sym_shorter)

lemma read_match_shorter:
  assumes "read_match dlens s out bs = Some (out', r)"
  shows "length r < length bs"
proof -
  from assms obtain le bs1 dsym bs2 de where
    a: "read_bits (length_extra ! (s - 257)) bs = Some (le, bs1)" and
    b: "huff_decode dlens bs1 = Some (dsym, bs2)" and
    c: "read_bits (dist_extra ! dsym) bs2 = Some (de, r)"
    by (auto simp: read_match_def Let_def split: if_splits option.splits)
  from read_bits_length [OF a] huff_decode_shorter [OF b] read_bits_length [OF c]
  show ?thesis by simp
qed

subsubsection \<open>Blocks coded with Huffman codes\<close>

function inflate_codes ::
  "nat list \<Rightarrow> nat list \<Rightarrow> byte list \<Rightarrow> bool list \<Rightarrow> (byte list \<times> bool list) option" where
  "inflate_codes llens dlens out bs =
     (case huff_decode llens bs of
        None \<Rightarrow> None
      | Some (s, bs1) \<Rightarrow>
          if s < 256 then inflate_codes llens dlens (out @ [of_nat s]) bs1
          else if s = 256 then Some (out, bs1)
          else (case read_match dlens s out bs1 of
                  None \<Rightarrow> None
                | Some (out', bs2) \<Rightarrow> inflate_codes llens dlens out' bs2))"
  by pat_completeness auto
termination
proof (relation "measure (\<lambda>(llens, dlens, out, bs). length bs)")
  show "wf (measure (\<lambda>(llens, dlens, out, bs). length bs))" by simp
next
  fix llens dlens :: "nat list" and out :: "byte list" and bs x2 s bs1
  assume "huff_decode llens bs = Some x2" "(s, bs1) = x2"
  then have "length bs1 < length bs" by (auto dest: huff_decode_shorter)
  then show "((llens, dlens, out @ [of_nat s], bs1), llens, dlens, out, bs)
      \<in> measure (\<lambda>(llens, dlens, out, bs). length bs)" by simp
next
  fix llens dlens :: "nat list" and out :: "byte list" and bs x2 s bs1 x2a out' bs2
  assume "huff_decode llens bs = Some x2" "(s, bs1) = x2"
    "read_match dlens s out bs1 = Some x2a" "(out', bs2) = x2a"
  then have "length bs1 < length bs" "length bs2 < length bs1"
    by (auto dest: huff_decode_shorter read_match_shorter)
  then show "((llens, dlens, out', bs2), llens, dlens, out, bs)
      \<in> measure (\<lambda>(llens, dlens, out, bs). length bs)" by simp
qed

definition fixed_llens :: "nat list" where
  "fixed_llens = replicate 144 8 @ replicate 112 9 @ replicate 24 7 @ replicate 8 8"

definition fixed_dlens :: "nat list" where
  "fixed_dlens = replicate 32 5"

subsubsection \<open>Stored blocks\<close>

fun bytes_of_bits :: "nat \<Rightarrow> bool list \<Rightarrow> byte list" where
  "bytes_of_bits 0 bs = []"
| "bytes_of_bits (Suc n) bs = of_nat (nat_of_bits (take 8 bs)) # bytes_of_bits n (drop 8 bs)"

definition inflate_stored :: "byte list \<Rightarrow> bool list \<Rightarrow> (byte list \<times> bool list) option" where
  "inflate_stored out bs =
     (case read_bits 32 (align_byte bs) of
        None \<Rightarrow> None
      | Some (v, bs1) \<Rightarrow>
          let len = v mod 65536; nlen = v div 65536
          in if len \<noteq> 65535 - nlen then None
             else if length bs1 < 8 * len then None
             else Some (out @ bytes_of_bits len bs1, drop (8 * len) bs1))"

lemma inflate_codes_shorter:
  "inflate_codes llens dlens out bs = Some (out', r) \<Longrightarrow> length r < length bs"
proof (induction llens dlens out bs rule: inflate_codes.induct)
  case (1 llens dlens out bs)
  from "1.prems" obtain s bs1 where h: "huff_decode llens bs = Some (s, bs1)"
    by (auto split: option.splits)
  have l1: "length bs1 < length bs" using h by (rule huff_decode_shorter)
  show ?case
  proof (cases "s < 256")
    case True
    with "1.prems" h have "inflate_codes llens dlens (out @ [of_nat s]) bs1 = Some (out', r)"
      by simp
    from "1.IH"(1) [OF h refl True this] l1 show ?thesis by simp
  next
    case False
    show ?thesis
    proof (cases "s = 256")
      case True
      with "1.prems" h l1 show ?thesis by simp
    next
      case ne: False
      from "1.prems" h False ne obtain out1 bs2 where
        m: "read_match dlens s out bs1 = Some (out1, bs2)" and
        c: "inflate_codes llens dlens out1 bs2 = Some (out', r)"
        by (auto split: option.splits)
      from "1.IH"(2) [OF h refl False ne m refl c] read_match_shorter [OF m] l1
      show ?thesis by simp
    qed
  qed
qed

declare inflate_codes.simps [simp del]

lemma inflate_stored_shorter:
  "inflate_stored out bs = Some (out', r) \<Longrightarrow> length r \<le> length bs"
  by (auto simp: inflate_stored_def align_byte_def Let_def
      split: option.splits if_splits dest!: read_bits_length)

subsubsection \<open>Blocks with their own codes\<close>

definition clen_order :: "nat list" where
  "clen_order = [16, 17, 18, 0, 8, 7, 9, 6, 10, 5, 11, 4, 12, 3, 13, 2, 14, 1, 15]"

fun read_clens :: "nat \<Rightarrow> bool list \<Rightarrow> (nat list \<times> bool list) option" where
  "read_clens 0 bs = Some ([], bs)"
| "read_clens (Suc n) bs =
     (case read_bits 3 bs of
        None \<Rightarrow> None
      | Some (v, bs1) \<Rightarrow>
          (case read_clens n bs1 of
             None \<Rightarrow> None
           | Some (vs, bs2) \<Rightarrow> Some (v # vs, bs2)))"

definition clen_table :: "nat list \<Rightarrow> nat list" where
  "clen_table cs = fold (\<lambda>(i, c) t. t[i := c]) (zip clen_order cs) (replicate 19 0)"

text \<open>A symbol 16, 17 or 18 of the code-length code repeats a length: the value
  repeated, the number of repetitions and the bits left.\<close>

definition read_repeat ::
  "nat \<Rightarrow> nat list \<Rightarrow> bool list \<Rightarrow> (nat \<times> nat \<times> bool list) option" where
  "read_repeat s acc bs =
     (if s = 16 then
        (if acc = [] then None
         else case read_bits 2 bs of
                None \<Rightarrow> None
              | Some (r, bs1) \<Rightarrow> Some (last acc, 3 + r, bs1))
      else if s = 17 then
        (case read_bits 3 bs of
           None \<Rightarrow> None
         | Some (r, bs1) \<Rightarrow> Some (0, 3 + r, bs1))
      else
        (case read_bits 7 bs of
           None \<Rightarrow> None
         | Some (r, bs1) \<Rightarrow> Some (0, 11 + r, bs1)))"

lemma read_repeat_props:
  "read_repeat s acc bs = Some (v, k, r) \<Longrightarrow> 3 \<le> k \<and> length r \<le> length bs"
  by (auto simp: read_repeat_def split: if_splits option.splits dest!: read_bits_length)

function read_lengths ::
  "nat list \<Rightarrow> nat \<Rightarrow> nat list \<Rightarrow> bool list \<Rightarrow> (nat list \<times> bool list) option" where
  "read_lengths cl n acc bs =
     (if n \<le> length acc then Some (acc, bs)
      else case huff_decode cl bs of
        None \<Rightarrow> None
      | Some (s, bs1) \<Rightarrow>
          if s < 16 then read_lengths cl n (acc @ [s]) bs1
          else (case read_repeat s acc bs1 of
                  None \<Rightarrow> None
                | Some (v, k, bs2) \<Rightarrow>
                    if n < length acc + k then None
                    else read_lengths cl n (acc @ replicate k v) bs2))"
  by pat_completeness auto
termination
proof (relation "measure (\<lambda>(cl, n, acc, bs). n - length acc)")
  show "wf (measure (\<lambda>(cl, n, acc, bs). n - length acc))" by simp
next
  fix cl :: "nat list" and n :: nat and acc :: "nat list" and bs x2 s bs1
  assume "\<not> n \<le> length acc"
  then show "((cl, n, acc @ [s], bs1), cl, n, acc, bs)
      \<in> measure (\<lambda>(cl, n, acc, bs). n - length acc)" by simp
next
  fix cl :: "nat list" and n :: nat and acc :: "nat list"
    and bs x2 s bs1 x2a v y k bs2
  assume "\<not> n \<le> length acc" "read_repeat s acc bs1 = Some x2a" "(v, y) = x2a" "(k, bs2) = y"
  then have "3 \<le> k" by (auto dest: read_repeat_props)
  with \<open>\<not> n \<le> length acc\<close> show "((cl, n, acc @ replicate k v, bs2), cl, n, acc, bs)
      \<in> measure (\<lambda>(cl, n, acc, bs). n - length acc)" by simp
qed

lemma read_clens_shorter:
  "read_clens n bs = Some (vs, r) \<Longrightarrow> length r \<le> length bs"
proof (induction n arbitrary: bs vs)
  case 0
  then show ?case by simp
next
  case (Suc n)
  from Suc.prems obtain v bs1 vs1 where
    a: "read_bits 3 bs = Some (v, bs1)" and b: "read_clens n bs1 = Some (vs1, r)"
    by (auto split: option.splits)
  from Suc.IH [OF b] read_bits_length [OF a] show ?case by simp
qed

lemma read_lengths_shorter:
  "read_lengths cl n acc bs = Some (ls, r) \<Longrightarrow> length r \<le> length bs"
proof (induction cl n acc bs rule: read_lengths.induct)
  case (1 cl n acc bs)
  show ?case
  proof (cases "n \<le> length acc")
    case True
    with "1.prems" show ?thesis by simp
  next
    case False
    with "1.prems" obtain s bs1 where h: "huff_decode cl bs = Some (s, bs1)"
      by (auto split: option.splits)
    have l1: "length bs1 < length bs" using h by (rule huff_decode_shorter)
    show ?thesis
    proof (cases "s < 16")
      case True
      with "1.prems" False h have "read_lengths cl n (acc @ [s]) bs1 = Some (ls, r)"
        by simp
      from "1.IH"(1) [OF False h refl True this] l1 show ?thesis by simp
    next
      case ge: False
      from "1.prems" False h ge obtain v k bs2 where
        m: "read_repeat s acc bs1 = Some (v, k, bs2)" and
        nk: "\<not> n < length acc + k" and
        c: "read_lengths cl n (acc @ replicate k v) bs2 = Some (ls, r)"
        by (auto split: option.splits if_splits)
      from "1.IH"(2) [OF False h refl ge m refl refl nk c] read_repeat_props [OF m] l1
      show ?thesis by simp
    qed
  qed
qed

declare read_lengths.simps [simp del]

text \<open>The header of a dynamic block: the numbers of literal/length codes, of
  distance codes and of code-length codes, the code-length code, then the code
  lengths of both codes in one run. A code-length code with no code at all makes
  every length 0, and the block is then refused for its missing end-of-block
  code.\<close>

definition dynamic_lengths :: "bool list \<Rightarrow> (nat list \<times> nat list \<times> bool list) option" where
  "dynamic_lengths bs =
     (case read_bits 14 bs of
        None \<Rightarrow> None
      | Some (h, bs1) \<Rightarrow>
          let nlen = h mod 32 + 257; ndist = (h div 32) mod 32 + 1; ncode = h div 1024 + 4
          in if 286 < nlen \<or> 30 < ndist then None
             else (case read_clens ncode bs1 of
                None \<Rightarrow> None
              | Some (cs, bs2) \<Rightarrow>
                 let cl = clen_table cs
                 in if \<not> table_ok CODES cl \<or> max_len cl = 0 then None
                    else (case read_lengths cl (nlen + ndist) [] bs2 of
                       None \<Rightarrow> None
                     | Some (ls, bs3) \<Rightarrow> Some (take nlen ls, drop nlen ls, bs3))))"

definition inflate_dynamic :: "byte list \<Rightarrow> bool list \<Rightarrow> (byte list \<times> bool list) option" where
  "inflate_dynamic out bs =
     (case dynamic_lengths bs of
        None \<Rightarrow> None
      | Some (llens, dlens, bs3) \<Rightarrow>
          if length llens \<le> 256 \<or> llens ! 256 = 0 then None
          else if \<not> table_ok LENS llens then None
          else if \<not> table_ok DISTS dlens then None
          else inflate_codes llens dlens out bs3)"

lemma dynamic_lengths_shorter:
  assumes "dynamic_lengths bs = Some (llens, dlens, r)"
  shows "length r \<le> length bs"
proof -
  from assms obtain h bs1 where a: "read_bits 14 bs = Some (h, bs1)"
    unfolding dynamic_lengths_def by (cases "read_bits 14 bs") auto
  define ncode where "ncode = h div 1024 + 4"
  define n where "n = h mod 32 + 257 + ((h div 32) mod 32 + 1)"
  from assms a obtain cs bs2 where b: "read_clens ncode bs1 = Some (cs, bs2)"
    unfolding dynamic_lengths_def ncode_def
    by (cases "read_clens (h div 1024 + 4) bs1") (auto simp: Let_def split: if_splits)
  from assms a b obtain ls where c: "read_lengths (clen_table cs) n [] bs2 = Some (ls, r)"
    unfolding dynamic_lengths_def ncode_def n_def
    by (cases "read_lengths (clen_table cs) (h mod 32 + 257 + ((h div 32) mod 32 + 1)) [] bs2")
       (auto simp: Let_def split: if_splits)
  from read_bits_length [OF a] read_clens_shorter [OF b] read_lengths_shorter [OF c]
  show ?thesis by simp
qed

lemma inflate_dynamic_shorter:
  assumes "inflate_dynamic out bs = Some (out', r)"
  shows "length r \<le> length bs"
proof -
  from assms obtain llens dlens bs3 where
    a: "dynamic_lengths bs = Some (llens, dlens, bs3)" and
    b: "inflate_codes llens dlens out bs3 = Some (out', r)"
    unfolding inflate_dynamic_def
    by (cases "dynamic_lengths bs") (auto split: if_splits)
  from dynamic_lengths_shorter [OF a] inflate_codes_shorter [OF b]
  show ?thesis by simp
qed

subsubsection \<open>The deflate stream\<close>

text \<open>Each block starts with three bits: the last-block flag and the block type
  (0 stored, 1 fixed codes, 2 dynamic codes, 3 invalid).\<close>

definition inflate_block ::
  "nat \<Rightarrow> byte list \<Rightarrow> bool list \<Rightarrow> (byte list \<times> bool list) option" where
  "inflate_block btype out bs =
     (if btype = 0 then inflate_stored out bs
      else if btype = 1 then inflate_codes fixed_llens fixed_dlens out bs
      else if btype = 2 then inflate_dynamic out bs
      else None)"

lemma inflate_block_shorter:
  "inflate_block btype out bs = Some (out', r) \<Longrightarrow> length r \<le> length bs"
  by (auto simp: inflate_block_def split: if_splits
      dest: inflate_stored_shorter inflate_codes_shorter inflate_dynamic_shorter)

function inflate_blocks :: "byte list \<Rightarrow> bool list \<Rightarrow> (byte list \<times> bool list) option" where
  "inflate_blocks out bs =
     (case read_bits 3 bs of
        None \<Rightarrow> None
      | Some (h, bs1) \<Rightarrow>
          (case inflate_block (h div 2) out bs1 of
             None \<Rightarrow> None
           | Some (out', bs2) \<Rightarrow>
               if h mod 2 = 1 then Some (out', bs2) else inflate_blocks out' bs2))"
  by pat_completeness auto
termination
proof (relation "measure (\<lambda>(out, bs). length bs)")
  show "wf (measure (\<lambda>(out, bs). length bs))" by simp
next
  fix out :: "byte list" and bs x2 h bs1 x2a out' bs2
  assume "read_bits 3 bs = Some x2" "(h, bs1) = x2"
    "inflate_block (h div 2) out bs1 = Some x2a" "(out', bs2) = x2a"
  then have "3 \<le> length bs" "length bs1 = length bs - 3" "length bs2 \<le> length bs1"
    by (auto dest: read_bits_length inflate_block_shorter)
  then show "((out', bs2), out, bs) \<in> measure (\<lambda>(out, bs). length bs)" by simp
qed

declare inflate_blocks.simps [simp del]

text \<open>\<^verbatim>\<open>zlib.decompress(data, wbits=-15)\<close>: a raw deflate stream, with no header
  and no checksum. Bytes after the last block are ignored.\<close>

definition raw_inflate :: "byte list \<Rightarrow> byte list option" where
  "raw_inflate data = map_option fst (inflate_blocks [] (bits_of_bytes data))"

subsubsection \<open>The zlib container\<close>

fun adler32_loop :: "nat \<Rightarrow> nat \<Rightarrow> byte list \<Rightarrow> nat" where
  "adler32_loop a b [] = b * 65536 + a"
| "adler32_loop a b (x # xs) =
     (let a' = (a + unat x) mod 65521 in adler32_loop a' ((b + a') mod 65521) xs)"

definition adler32 :: "byte list \<Rightarrow> nat" where
  "adler32 xs = adler32_loop 1 0 xs"

definition be32 :: "bool list \<Rightarrow> nat option" where
  "be32 bs =
     (if length bs < 32 then None
      else Some (fold (\<lambda>x acc. acc * 256 + unat x) (bytes_of_bits 4 bs) 0))"

text \<open>The header is checked in the library's order: the check value, the
  compression method, the window size, the preset-dictionary flag (a stream
  that asks for a dictionary is an error of \<^verbatim>\<open>zlib.decompress\<close>). A stream that
  ends before its checksum is truncated; bytes after the checksum are ignored.\<close>

definition zlib_decompress :: "byte list \<Rightarrow> byte list option" where
  "zlib_decompress data =
     (case data of
        cmf # flg # rest \<Rightarrow>
          if (unat cmf * 256 + unat flg) mod 31 \<noteq> 0 then None
          else if unat cmf mod 16 \<noteq> 8 then None
          else if 15 < unat cmf div 16 + 8 then None
          else if bit flg 5 then None
          else (case inflate_blocks [] (bits_of_bytes rest) of
                  None \<Rightarrow> None
                | Some (out, bs) \<Rightarrow>
                    (case be32 (align_byte bs) of
                       None \<Rightarrow> None
                     | Some c \<Rightarrow> if c = adler32 out then Some out else None))
      | _ \<Rightarrow> None)"

subsection \<open>\<^verbatim>\<open>bytes.find\<close>, slicing, \<^verbatim>\<open>bytes.decode\<close> and \<^verbatim>\<open>str\<close> of an integer\<close>

text \<open>\<^verbatim>\<open>V.find(sub, start)\<close> is the lowest index \<open>i \<ge> start\<close> with
  \<^verbatim>\<open>V[i:i+len(sub)] == sub\<close>, or \<open>-1\<close>. A negative \<open>start\<close> counts from the end.\<close>

fun find_at :: "byte list \<Rightarrow> byte list \<Rightarrow> nat \<Rightarrow> int" where
  "find_at sub [] i = (if sub = [] then int i else -1)"
| "find_at sub (x # xs) i =
     (if take (length sub) (x # xs) = sub then int i else find_at sub xs (Suc i))"

definition clamp_index :: "'a list \<Rightarrow> int \<Rightarrow> nat" where
  "clamp_index V i =
     (if i < 0 then nat (max 0 (i + int (length V))) else min (nat i) (length V))"

definition find_bytes :: "byte list \<Rightarrow> byte list \<Rightarrow> int \<Rightarrow> int" where
  "find_bytes V sub start =
     (if int (length V) < start then -1
      else find_at sub (drop (clamp_index V start) V) (clamp_index V start))"

definition bytes_slice :: "'a list \<Rightarrow> int \<Rightarrow> int \<Rightarrow> 'a list" where
  "bytes_slice V lo hi = take (clamp_index V hi - clamp_index V lo) (drop (clamp_index V lo) V)"

text \<open>\<^verbatim>\<open>bytes.decode('utf-8')\<close> is strict: it accepts the well-formed byte sequences
  of the Unicode standard only (no overlong form, no surrogate, nothing above
  U+10FFFF) and raises \<^verbatim>\<open>UnicodeDecodeError\<close> otherwise.\<close>

definition cont :: "byte \<Rightarrow> nat \<Rightarrow> nat \<Rightarrow> bool" where
  "cont c lo hi = (lo \<le> unat c \<and> unat c \<le> hi)"

fun utf8_decode :: "byte list \<Rightarrow> pystr option" where
  "utf8_decode [] = Some []"
| "utf8_decode (b # bs) =
     (let n = unat b in
      if n < 0x80 then map_option ((#) n) (utf8_decode bs)
      else if 0xC2 \<le> n \<and> n \<le> 0xDF then
        (case bs of
           c1 # r \<Rightarrow>
             if cont c1 0x80 0xBF
             then map_option ((#) ((n - 0xC0) * 64 + (unat c1 - 0x80))) (utf8_decode r)
             else None
         | _ \<Rightarrow> None)
      else if 0xE0 \<le> n \<and> n \<le> 0xEF then
        (case bs of
           c1 # c2 # r \<Rightarrow>
             if cont c1 (if n = 0xE0 then 0xA0 else 0x80) (if n = 0xED then 0x9F else 0xBF)
                \<and> cont c2 0x80 0xBF
             then map_option
                    ((#) ((n - 0xE0) * 4096 + (unat c1 - 0x80) * 64 + (unat c2 - 0x80)))
                    (utf8_decode r)
             else None
         | _ \<Rightarrow> None)
      else if 0xF0 \<le> n \<and> n \<le> 0xF4 then
        (case bs of
           c1 # c2 # c3 # r \<Rightarrow>
             if cont c1 (if n = 0xF0 then 0x90 else 0x80) (if n = 0xF4 then 0x8F else 0xBF)
                \<and> cont c2 0x80 0xBF \<and> cont c3 0x80 0xBF
             then map_option
                    ((#) ((n - 0xF0) * 262144 + (unat c1 - 0x80) * 4096
                          + (unat c2 - 0x80) * 64 + (unat c3 - 0x80)))
                    (utf8_decode r)
             else None
         | _ \<Rightarrow> None)
      else None)"

definition digit :: "nat \<Rightarrow> char" where
  "digit d = ''0123456789'' ! d"

function str_nat :: "nat \<Rightarrow> string" where
  "str_nat n = (if n < 10 then [digit n] else str_nat (n div 10) @ [digit (n mod 10)])"
  by pat_completeness auto
termination
  by (relation "measure id") auto

declare str_nat.simps [simp del]

definition str_int :: "int \<Rightarrow> string" where
  "str_int i = (if i < 0 then CHR ''-'' # str_nat (nat (- i)) else str_nat (nat i))"

definition len :: "'a list \<Rightarrow> int" where
  "len xs = int (length xs)"

definition bytes_lit :: "string \<Rightarrow> byte list" where
  "bytes_lit s = map (\<lambda>c. of_nat (of_char c)) s"

section \<open>The extractor\<close>

subsection \<open>The environment: the network, the output streams, exceptions\<close>

text \<open>The exceptions the program can meet. \<^verbatim>\<open>requests.RequestException\<close> is the base
  class of what \<^verbatim>\<open>requests.get\<close> and \<^verbatim>\<open>raise_for_status\<close> raise (the string names
  the subclass); anything else is caught by \<^verbatim>\<open>except Exception\<close> only.\<close>

datatype exn =
  RequestException string
| ZlibError
| UnicodeDecodeError
| UnicodeEncodeError
| OtherException string

text \<open>A request is what the program asks \<^verbatim>\<open>requests.get\<close> for: the URL, the
  headers it passes (the library adds its own) and the timeout.\<close>

record request =
  url :: string
  headers :: "(string \<times> string) list"
  timeout :: nat

record response =
  status_code :: nat
  content :: "byte list"

text \<open>The network is a function from the request to what \<^verbatim>\<open>requests.get\<close> does
  with it: it raises, or returns a response.\<close>

type_synonym network = "request \<Rightarrow> exn + response"

text \<open>\<^verbatim>\<open>Response.raise_for_status()\<close> raises \<^verbatim>\<open>HTTPError\<close> for a status from 400 to
  599, and returns for any other status.\<close>

definition raise_for_status :: "response \<Rightarrow> exn + unit" where
  "raise_for_status L =
     (if 400 \<le> status_code L \<and> status_code L < 600
      then Inl (RequestException ''HTTPError'') else Inr ())"

text \<open>Below the call. The program calls \<^verbatim>\<open>requests.get\<close> with \<^verbatim>\<open>allow_redirects\<close> at
  its default, so the library follows redirects: a reply with the status 301,
  302, 303, 307 or 308 and a non-empty \<^verbatim>\<open>Location\<close> header makes it send the GET
  again, to the target of the redirect, with the headers and the timeout of the
  call. When a reply asks for a redirect and \<^verbatim>\<open>max_redirects\<close> (30) have been
  followed already, the library raises \<^verbatim>\<open>TooManyRedirects\<close>, a
  \<^verbatim>\<open>RequestException\<close>. A reply is a status, the \<^verbatim>\<open>Location\<close> header (given as the
  absolute URL the library makes of it) and a body; a server takes each request
  to an error of the transport or to a reply. \<open>resolve_redirects srv n rq\<close> sends
  \<open>rq\<close> after \<open>n\<close> redirects and returns the requests sent, in order, with the
  outcome of the call.\<close>

record reply =
  status :: nat
  location :: "string option"
  body :: "byte list"

type_synonym server = "request \<Rightarrow> exn + reply"

definition get_redirect_target :: "reply \<Rightarrow> string option" where
  "get_redirect_target r =
     (if status r \<in> set [301, 302, 303, 307, 308] then
        (case location r of None \<Rightarrow> None | Some u \<Rightarrow> if u = [] then None else Some u)
      else None)"

definition max_redirects :: nat where
  "max_redirects = 30"

function resolve_redirects ::
  "server \<Rightarrow> nat \<Rightarrow> request \<Rightarrow> request list \<times> (exn + response)" where
  "resolve_redirects srv n rq =
     (case srv rq of
        Inl e \<Rightarrow> ([rq], Inl e)
      | Inr r \<Rightarrow>
          (case get_redirect_target r of
             None \<Rightarrow> ([rq], Inr \<lparr>status_code = status r, content = body r\<rparr>)
           | Some u \<Rightarrow>
               if max_redirects \<le> n then ([rq], Inl (RequestException ''TooManyRedirects''))
               else (case resolve_redirects srv (Suc n) (rq\<lparr>url := u\<rparr>) of
                       (ws, res) \<Rightarrow> (rq # ws, res))))"
  by pat_completeness auto
termination
  by (relation "measure (\<lambda>(srv, n, rq). max_redirects - n)") auto

declare resolve_redirects.simps [simp del]

definition requests_get :: "server \<Rightarrow> request \<Rightarrow> request list \<times> (exn + response)" where
  "requests_get srv rq = resolve_redirects srv 0 rq"

text \<open>The network a server is to the program, through \<^verbatim>\<open>requests.get\<close>, and the
  GETs one call puts on the wire.\<close>

definition via :: "server \<Rightarrow> network" where
  "via srv rq = snd (requests_get srv rq)"

definition wire :: "server \<Rightarrow> request \<Rightarrow> request list" where
  "wire srv rq = fst (requests_get srv rq)"

text \<open>\<^verbatim>\<open>print\<close> encodes a line with the encoding of the stream before it writes
  it. Standard output's encoding comes from the environment of the process (the
  locale, \<^verbatim>\<open>PYTHONIOENCODING\<close>): a line with a code point the encoding does not
  have raises \<^verbatim>\<open>UnicodeEncodeError\<close>, and nothing of the line is written. The
  encoding is a parameter of the model, given by the code points it can encode.
  ASCII text, which is all the program prints to standard output apart from the
  credential, is taken to be encodable whatever the encoding. Standard error
  replaces what it cannot encode by an escape and does not raise.\<close>

type_synonym encoding = "nat \<Rightarrow> bool"

definition encodable :: "encoding \<Rightarrow> pystr \<Rightarrow> bool" where
  "encodable out Q = list_all (\<lambda>c. c < 128 \<or> out c) Q"

definition utf8 :: encoding where
  "utf8 c = (c < 0xD800 \<or> (0xE000 \<le> c \<and> c < 0x110000))"


definition ascii :: encoding where
  "ascii c = (c < 128)"

text \<open>What the program does to the outside is a trace of events: the lines it
  prints, each an f-string kept as its parts (the text of an exception is not
  modelled), and the library calls of the three steps.\<close>

datatype stream = Stdout | Stderr

datatype piece = Lit string | Str pystr | Exc exn

datatype event =
  Print stream "piece list"
| Http_get request
| Zlib_decompress "byte list"
| Bytes_find "byte list" "byte list" int

subsection \<open>The function \<^verbatim>\<open>E\<close>\<close>

definition J :: string where
  "J = ''https://curseforge.overwolf.com/electron/linux/CurseForge-0.198.1-21.AppImage''"

definition D :: int where
  "D = 82926761"

definition K :: int where
  "K = 84196"

definition G :: "byte list" where
  \<open>G = bytes_lit ''"cfCoreApiKey":"''\<close>

definition quote :: "byte list" where
  \<open>quote = bytes_lit ''"''\<close>

text \<open>The two handlers of the outer \<^verbatim>\<open>try\<close>: \<^verbatim>\<open>except H.RequestException\<close> first,
  then \<^verbatim>\<open>except Exception\<close>. Both print to standard error and return \<^verbatim>\<open>None\<close>.\<close>

definition handler :: "event list \<Rightarrow> exn \<Rightarrow> event list \<times> pystr option" where
  "handler tr e =
     (case e of
        RequestException c \<Rightarrow> (tr @ [Print Stderr [Lit ''network error: '', Exc e]], None)
      | _ \<Rightarrow> (tr @ [Print Stderr [Lit ''error: '', Exc e]], None))"

text \<open>Lines 13 to 17: the search for the marker and for the closing quote in the
  decompressed bytes \<open>V\<close>, after the trace \<open>tr\<close> of what came before. The source's
  variable \<^verbatim>\<open>O\<close> is \<open>O'\<close> here. The last \<^verbatim>\<open>print\<close>, of the credential \<^verbatim>\<open>Q\<close> to
  standard output, is inside the outer \<^verbatim>\<open>try\<close> like the rest: when standard
  output (of encoding \<open>out\<close>) cannot encode \<^verbatim>\<open>Q\<close>, the \<^verbatim>\<open>UnicodeEncodeError\<close> goes
  to \<^verbatim>\<open>except Exception\<close> and \<^verbatim>\<open>E\<close> returns \<^verbatim>\<open>None\<close>.\<close>

definition extract_value ::
  "encoding \<Rightarrow> event list \<Rightarrow> byte list \<Rightarrow> event list \<times> pystr option" where
  "extract_value out tr V =
     (let tr1 = tr @ [Print Stdout [Lit ''decompressed to '', Lit (str_int (len V)), Lit '' bytes''],
                      Bytes_find V G 0];
          N = find_bytes V G 0
      in if N = -1 then
           (case utf8_decode G of
              None \<Rightarrow> handler tr1 UnicodeDecodeError
            | Some g \<Rightarrow> (tr1 @ [Print Stderr [Lit ''couldnt find string '', Str g]], None))
         else
           let O' = N + len G;
               tr2 = tr1 @ [Bytes_find V quote O'];
               P = find_bytes V quote O'
           in if P = -1 then (tr2 @ [Print Stderr [Lit ''no closing quote'']], None)
              else (case utf8_decode (bytes_slice V O' P) of
                      None \<Rightarrow> handler tr2 UnicodeDecodeError
                    | Some Q \<Rightarrow>
                        if encodable out Q
                        then (tr2 @ [Print Stdout [Lit ''api key: '', Str Q]], Some Q)
                        else handler tr2 UnicodeEncodeError))"

text \<open>Lines 11 and 12: the inner \<^verbatim>\<open>try\<close> around \<^verbatim>\<open>zlib.decompress\<close>.\<close>

definition decompress_step ::
  "encoding \<Rightarrow> event list \<Rightarrow> byte list \<Rightarrow> event list \<times> pystr option" where
  "decompress_step out tr M =
     (let tr1 = tr @ [Zlib_decompress M]
      in case zlib_decompress M of
           None \<Rightarrow> (tr1 @ [Print Stderr [Lit ''decompression error: '', Exc ZlibError]], None)
         | Some V \<Rightarrow> extract_value out tr1 V)"

text \<open>Line 10: the header value \<^verbatim>\<open>S\<close>, the headers \<^verbatim>\<open>T\<close>, the one call of
  \<^verbatim>\<open>requests.get\<close> with its arguments, and what is printed before it.\<close>

definition S :: string where
  "S = ''bytes='' @ str_int D @ ''-'' @ str_int (D + K)"

definition T :: "(string \<times> string) list" where
  "T = [(''Range'', S)]"

definition get_request :: request where
  "get_request = \<lparr>url = J, headers = T, timeout = 30\<rparr>"

definition fetch_trace :: "event list" where
  "fetch_trace =
     [Print Stdout [Lit ''getting curseforge api key from '', Lit J, Lit ''...''],
      Print Stdout [Lit ''requesting bytes '', Lit (str_int D), Lit ''-'',
                    Lit (str_int (D + K)), Lit ''...''],
      Http_get get_request]"

definition E :: "encoding \<Rightarrow> network \<Rightarrow> event list \<times> pystr option" where
  "E out net =
     (case net get_request of
        Inl e \<Rightarrow> handler fetch_trace e
      | Inr L \<Rightarrow>
          (case raise_for_status L of
             Inl e \<Rightarrow> handler fetch_trace e
           | Inr _ \<Rightarrow>
               let M = content L
               in decompress_step out
                    (fetch_trace @ [Print Stdout [Lit ''downloaded '', Lit (str_int (len M)),
                                                  Lit '' bytes (compressed)'']]) M))"

subsection \<open>The main block\<close>

text \<open>\<^verbatim>\<open>if C:\<close> is Python's truth test: \<^verbatim>\<open>None\<close> and the empty string are false.\<close>

definition truthy :: "pystr option \<Rightarrow> bool" where
  "truthy C = (case C of None \<Rightarrow> False | Some q \<Rightarrow> q \<noteq> [])"

definition main :: "encoding \<Rightarrow> network \<Rightarrow> event list \<times> nat" where
  "main out net =
     (case E out net of
        (tr, C) \<Rightarrow>
          if truthy C then (tr, 0)
          else (tr @ [Print Stderr [Lit ''failed to extract api key'']], 1))"

section \<open>Stored streams: every short buffer is the decompression of some input\<close>

text \<open>A buffer \<open>V\<close> of less than 65536 bytes has a zlib stream that stores it
  uncompressed: the header \<^verbatim>\<open>78 01\<close>, one final stored block (the length and its
  complement, both little-endian, then \<open>V\<close> itself) and the Adler-32 of \<open>V\<close>,
  big-endian. \<open>zlib_decompress\<close> gives \<open>V\<close> back, so a property stated for every
  decompressed buffer holds of every such buffer.\<close>

definition be32_bytes :: "nat \<Rightarrow> byte list" where
  "be32_bytes c =
     [of_nat (c div 256 div 256 div 256), of_nat (c div 256 div 256 mod 256),
      of_nat (c div 256 mod 256), of_nat (c mod 256)]"

definition store_block :: "byte list \<Rightarrow> byte list" where
  "store_block V =
     [1, of_nat (length V mod 256), of_nat (length V div 256),
      of_nat ((65535 - length V) mod 256), of_nat ((65535 - length V) div 256)] @ V"

definition zlib_store :: "byte list \<Rightarrow> byte list" where
  "zlib_store V = [0x78, 0x01] @ store_block V @ be32_bytes (adler32 V)"

lemma nat_of_bits_append:
  "nat_of_bits (xs @ ys) = nat_of_bits xs + 2 ^ length xs * nat_of_bits ys"
  by (induction xs) (auto simp: algebra_simps)

lemma nat_of_bits_horner: "nat_of_bits bs = horner_sum of_bool 2 bs"
  by (induction bs) simp_all

lemma nat_of_bits_byte: "nat_of_bits (bits_of_byte b) = unat b"
proof -
  have "bit (unat b) = bit b"
    by (rule ext) (simp add: bit_unsigned_iff)
  then have "nat_of_bits (bits_of_byte b) = horner_sum of_bool 2 (map (bit (unat b)) [0..<8])"
    by (simp add: nat_of_bits_horner bits_of_byte_def)
  also have "\<dots> = take_bit 8 (unat b)"
    by (rule horner_sum_bit_eq_take_bit)
  also have "\<dots> = unat b"
    using unsigned_less [of b, where ?'a = nat] by (simp add: take_bit_nat_eq_self)
  finally show ?thesis .
qed

lemma length_bits_of_byte: "length (bits_of_byte b) = 8"
  by (simp add: bits_of_byte_def)

lemma bits_of_bytes_Cons: "bits_of_bytes (b # bs) = bits_of_byte b @ bits_of_bytes bs"
  by (simp add: bits_of_bytes_def)

lemma bits_of_bytes_Nil: "bits_of_bytes [] = []"
  by (simp add: bits_of_bytes_def)

lemma bits_of_bytes_append: "bits_of_bytes (xs @ ys) = bits_of_bytes xs @ bits_of_bytes ys"
  by (simp add: bits_of_bytes_def)

lemma length_bits_of_bytes: "length (bits_of_bytes bs) = 8 * length bs"
  by (induction bs) (simp_all add: bits_of_bytes_Cons bits_of_bytes_Nil length_bits_of_byte)

lemma bytes_of_bits_bytes: "bytes_of_bits (length V) (bits_of_bytes V @ R) = V"
  by (induction V) (simp_all add: bits_of_bytes_Cons bits_of_bytes_Nil length_bits_of_byte nat_of_bits_byte)

lemma adler32_loop_bound:
  "a < 65521 \<Longrightarrow> b < 65521 \<Longrightarrow> adler32_loop a b xs < 4294967296"
proof (induction xs arbitrary: a b)
  case Nil
  then show ?case by simp
next
  case (Cons x xs)
  show ?case by (simp add: Let_def Cons.IH)
qed

lemma adler32_bound: "adler32 V < 4294967296"
  by (simp add: adler32_def adler32_loop_bound)

lemma unat_byte_of_nat: "n < 256 \<Longrightarrow> unat (of_nat n :: byte) = n"
  by (simp add: unat_of_nat)

lemma read_bits_append:
  "length xs = n \<Longrightarrow> read_bits n (xs @ ys) = Some (nat_of_bits xs, ys)"
  by (simp add: read_bits_def)

lemma nat_of_bits_4bytes:
  "nat_of_bits (bits_of_bytes [a, b, c, d]) =
     unat a + 256 * unat b + 65536 * unat c + 16777216 * unat d"
  by (simp add: bits_of_bytes_Cons bits_of_bytes_Nil nat_of_bits_append nat_of_bits_byte
      length_bits_of_byte)

lemma be32_bytes_value:
  assumes "c < 4294967296"
  shows "be32 (bits_of_bytes (be32_bytes c)) = Some c"
proof -
  have l: "length (be32_bytes c) = 4" by (simp add: be32_bytes_def)
  have "bytes_of_bits (length (be32_bytes c)) (bits_of_bytes (be32_bytes c) @ []) = be32_bytes c"
    by (rule bytes_of_bits_bytes)
  then have b: "bytes_of_bits 4 (bits_of_bytes (be32_bytes c)) = be32_bytes c"
    by (simp add: l)
  define c1 where "c1 = c div 256"
  define c2 where "c2 = c1 div 256"
  define c3 where "c3 = c2 div 256"
  have d: "c3 < 256" using assms unfolding c3_def c2_def c1_def by simp
  have e1: "c1 * 256 + c mod 256 = c" unfolding c1_def by simp
  have e2: "c2 * 256 + c1 mod 256 = c1" unfolding c2_def by simp
  have e3: "c3 * 256 + c2 mod 256 = c2" unfolding c3_def by simp
  have "fold (\<lambda>x acc. acc * 256 + unat x) (be32_bytes c) 0
      = ((c3 * 256 + c2 mod 256) * 256 + c1 mod 256) * 256 + c mod 256"
    using d by (simp add: be32_bytes_def unat_byte_of_nat c1_def c2_def c3_def)
  also have "\<dots> = c" by (simp only: e3 e2 e1)
  finally show ?thesis
    by (simp add: be32_def b length_bits_of_bytes l)
qed

lemma le16_pair:
  "n mod 256 + 256 * (n div 256) + 65536 * (m mod 256) + 16777216 * (m div 256)
     = n + 65536 * (m::nat)"
  using div_mult_mod_eq [of n 256] div_mult_mod_eq [of m 256] by linarith

lemma inflate_stored_block:
  assumes "length V < 65536"
  shows "inflate_blocks [] (bits_of_bytes (store_block V @ W))
           = Some (V, bits_of_bytes W)"
proof -
  let ?n = "length V"
  let ?m = "65535 - length V"
  let ?R = "bits_of_bytes W"
  let ?hdr = "[of_nat (?n mod 256), of_nat (?n div 256),
               of_nat (?m mod 256), of_nat (?m div 256)] :: byte list"
  let ?B = "bits_of_bytes ?hdr @ bits_of_bytes V @ ?R"
  let ?pad = "[False, False, False, False, False]"
  have b1: "bits_of_byte 1 = [True, False, False, False, False, False, False, False]"
    by (simp add: bits_of_byte_def upt_rec)
  have split: "bits_of_bytes (store_block V @ W) = [True, False, False] @ (?pad @ ?B)"
    by (simp add: store_block_def bits_of_bytes_Cons bits_of_bytes_Nil bits_of_bytes_append b1)
  have r3: "read_bits 3 (bits_of_bytes (store_block V @ W)) = Some (1, ?pad @ ?B)"
    unfolding split by (subst read_bits_append) simp_all
  have lenB: "length ?B = 8 * (4 + ?n + length W)"
    by (simp add: length_bits_of_bytes)
  have "length (?pad @ ?B) = 5 + 8 * (4 + ?n + length W)"
    by (simp add: length_bits_of_bytes)
  then have "length (?pad @ ?B) mod 8 = 5"
    by (simp only: mod_mult_self2) simp
  then have al: "align_byte (?pad @ ?B) = ?B"
    unfolding align_byte_def by simp
  have v: "nat_of_bits (bits_of_bytes ?hdr) = ?n + 65536 * ?m"
  proof -
    have "?n div 256 < 256" "?m div 256 < 256" using assms by simp_all
    then have "nat_of_bits (bits_of_bytes ?hdr)
        = ?n mod 256 + 256 * (?n div 256) + 65536 * (?m mod 256) + 16777216 * (?m div 256)"
      by (simp add: nat_of_bits_4bytes unat_byte_of_nat)
    then show ?thesis by (simp only: le16_pair)
  qed
  have r32: "read_bits 32 ?B = Some (?n + 65536 * ?m, bits_of_bytes V @ ?R)"
    by (subst read_bits_append) (simp_all add: length_bits_of_bytes v)
  have st: "inflate_stored [] (?pad @ ?B) = Some (V, ?R)"
    using assms
    by (simp only: inflate_stored_def al r32)
       (simp add: Let_def length_bits_of_bytes bytes_of_bits_bytes)
  show ?thesis
    using st by (subst inflate_blocks.simps) (simp add: r3 inflate_block_def)
qed

lemma zlib_decompress_store:
  assumes "length V < 65536"
  shows "zlib_decompress (zlib_store V) = Some V"
proof -
  let ?A = "be32_bytes (adler32 V)"
  have i: "inflate_blocks [] (bits_of_bytes (store_block V @ ?A)) = Some (V, bits_of_bytes ?A)"
    using assms by (rule inflate_stored_block)
  have a: "align_byte (bits_of_bytes ?A) = bits_of_bytes ?A"
    by (simp add: align_byte_def length_bits_of_bytes be32_bytes_def)
  have h: "zlib_decompress (0x78 # 0x01 # rest) =
      (case inflate_blocks [] (bits_of_bytes rest) of
         None \<Rightarrow> None
       | Some (out, bs) \<Rightarrow>
           (case be32 (align_byte bs) of
              None \<Rightarrow> None
            | Some c \<Rightarrow> if c = adler32 out then Some out else None))" for rest
    by (simp add: zlib_decompress_def)
  show ?thesis
    unfolding zlib_store_def append_Cons append_Nil h i
    by (simp add: a be32_bytes_value adler32_bound)
qed

section \<open>Outcomes and traces\<close>

text \<open>The byte sequence \<open>sub\<close> occurs in \<open>V\<close> at index \<open>i\<close>. The first occurrence is the
  one with no occurrence at a smaller index.\<close>

definition occurs_at :: "byte list \<Rightarrow> byte list \<Rightarrow> nat \<Rightarrow> bool" where
  "occurs_at sub V i = (i \<le> length V \<and> take (length sub) (drop i V) = sub)"

text \<open>\<open>sub\<close> occurs nowhere in \<open>V\<close>; the first occurrence of \<open>sub\<close> in \<open>V\<close> is at
  index \<open>n\<close>.\<close>

definition absent :: "byte list \<Rightarrow> byte list \<Rightarrow> bool" where
  "absent sub V = (\<forall>i \<in> {..length V}. \<not> occurs_at sub V i)"

definition first_occurrence :: "byte list \<Rightarrow> byte list \<Rightarrow> nat \<Rightarrow> bool" where
  "first_occurrence sub V n = (occurs_at sub V n \<and> (\<forall>i \<in> {..<n}. \<not> occurs_at sub V i))"

text \<open>The outcomes the specification names. The program tells them apart by its
  return value and by the diagnostic it prints last: \<open>classify\<close> reads both off the
  result of \<open>E\<close>.\<close>

datatype outcome =
  Credential pystr
| NetworkError
| DecompressionError
| MarkerNotFoundError
| UnterminatedValueError
| UnclassifiedError

definition classify :: "event list \<times> pystr option \<Rightarrow> outcome" where
  "classify r =
     (case snd r of
        Some Q \<Rightarrow> Credential Q
      | None \<Rightarrow>
          (case last (fst r) of
             Print Stderr (Lit m # ps) \<Rightarrow>
               if m = ''network error: '' then NetworkError
               else if m = ''decompression error: '' then DecompressionError
               else if m = ''couldnt find string '' then MarkerNotFoundError
               else if m = ''no closing quote'' then UnterminatedValueError
               else UnclassifiedError
           | _ \<Rightarrow> UnclassifiedError))"

text \<open>Step A succeeded with the bytes \<open>M\<close>: \<^verbatim>\<open>requests.get\<close> returned a response,
  \<^verbatim>\<open>raise_for_status\<close> did not raise, and the body is \<open>M\<close>.\<close>

definition fetched :: "network \<Rightarrow> byte list \<Rightarrow> bool" where
  "fetched net M =
     (case net get_request of
        Inl e \<Rightarrow> False
      | Inr L \<Rightarrow> raise_for_status L = Inr () \<and> content L = M)"

text \<open>The trace up to the call of \<^verbatim>\<open>zlib.decompress\<close>, and up to the first
  \<^verbatim>\<open>find\<close>.\<close>

definition fetched_trace :: "byte list \<Rightarrow> event list" where
  "fetched_trace M =
     fetch_trace @ [Print Stdout [Lit ''downloaded '', Lit (str_int (len M)),
                                  Lit '' bytes (compressed)''],
                    Zlib_decompress M]"

definition scan_trace :: "byte list \<Rightarrow> byte list \<Rightarrow> event list" where
  "scan_trace M V =
     fetched_trace M @ [Print Stdout [Lit ''decompressed to '', Lit (str_int (len V)),
                                      Lit '' bytes''],
                        Bytes_find V G 0]"

text \<open>The library calls of a trace, in order.\<close>

fun is_call :: "event \<Rightarrow> bool" where
  "is_call (Print s ps) = False"
| "is_call e = True"

definition calls :: "event list \<Rightarrow> event list" where
  "calls tr = filter is_call tr"

fun is_get :: "event \<Rightarrow> bool" where
  "is_get (Http_get rq) = True"
| "is_get e = False"

fun is_decompress :: "event \<Rightarrow> bool" where
  "is_decompress (Zlib_decompress M) = True"
| "is_decompress e = False"

fun stderr_lines :: "event list \<Rightarrow> piece list list" where
  "stderr_lines [] = []"
| "stderr_lines (Print Stderr ps # tr) = ps # stderr_lines tr"
| "stderr_lines (e # tr) = stderr_lines tr"

text \<open>Step A failed: \<^verbatim>\<open>requests.get\<close> or \<^verbatim>\<open>raise_for_status\<close> raised.\<close>

definition fetch_failed :: "network \<Rightarrow> bool" where
  "fetch_failed net =
     (case net get_request of
        Inl e \<Rightarrow> True
      | Inr L \<Rightarrow> raise_for_status L \<noteq> Inr ())"

text \<open>A network whose server answers every request with the status \<open>st\<close> and
  the body \<open>M\<close>.\<close>

definition server :: "nat \<Rightarrow> byte list \<Rightarrow> network" where
  "server st M = (\<lambda>rq. Inr \<lparr>status_code = st, content = M\<rparr>)"

text \<open>The HTTP GETs of a run: each call of \<^verbatim>\<open>requests.get\<close> in the trace puts its
  requests on the wire.\<close>

fun http_gets :: "server \<Rightarrow> event list \<Rightarrow> request list" where
  "http_gets srv [] = []"
| "http_gets srv (Http_get rq # tr) = wire srv rq @ http_gets srv tr"
| "http_gets srv (e # tr) = http_gets srv tr"

text \<open>Three servers: one that answers every request with the status \<open>st\<close>, no
  \<^verbatim>\<open>Location\<close> and the body \<open>M\<close>; one that redirects the URL \<open>J\<close> to the URL \<open>u\<close> with
  the status 302 and answers every other request with 206 and the body \<open>M\<close>; one
  that redirects every request to the URL \<open>u\<close>.\<close>

definition http_server :: "nat \<Rightarrow> byte list \<Rightarrow> server" where
  "http_server st M = (\<lambda>rq. Inr \<lparr>status = st, location = None, body = M\<rparr>)"

definition moved_server :: "string \<Rightarrow> byte list \<Rightarrow> server" where
  "moved_server u M =
     (\<lambda>rq. if url rq = J then Inr \<lparr>status = 302, location = Some u, body = []\<rparr>
           else Inr \<lparr>status = 206, location = None, body = M\<rparr>)"

definition looping_server :: "string \<Rightarrow> server" where
  "looping_server u = (\<lambda>rq. Inr \<lparr>status = 302, location = Some u, body = []\<rparr>)"


text \<open>A buffer whose value is not ASCII: the marker, the two bytes \<^verbatim>\<open>c3 a9\<close> (the
  UTF-8 form of U+00E9) and a quote.\<close>

definition accent_buffer :: "byte list" where
  "accent_buffer = G @ [0xC3, 0xA9] @ quote"

section \<open>The search for the marker and the value\<close>

subsection \<open>What \<^verbatim>\<open>find\<close> returns\<close>

lemma find_at_first:
  assumes "\<forall>j < length pre. take (length sub) (drop j (pre @ rest)) \<noteq> sub"
    and "take (length sub) rest = sub"
  shows "find_at sub (pre @ rest) i = int (i + length pre)"
  using assms
proof (induction pre arbitrary: i)
  case Nil
  then show ?case by (cases rest) auto
next
  case (Cons p ps)
  from Cons.prems(1) have "take (length sub) (drop 0 ((p # ps) @ rest)) \<noteq> sub"
    by blast
  then have ne: "take (length sub) (p # ps @ rest) \<noteq> sub" by simp
  have "\<forall>j < length ps. take (length sub) (drop j (ps @ rest)) \<noteq> sub"
  proof (intro allI impI)
    fix j assume "j < length ps"
    then have "Suc j < length (p # ps)" by simp
    with Cons.prems(1) have "take (length sub) (drop (Suc j) ((p # ps) @ rest)) \<noteq> sub"
      by blast
    then show "take (length sub) (drop j (ps @ rest)) \<noteq> sub" by simp
  qed
  from Cons.IH [OF this Cons.prems(2)] ne show ?case by simp
qed

lemma find_at_none:
  assumes "\<forall>j \<le> length xs. take (length sub) (drop j xs) \<noteq> sub"
  shows "find_at sub xs i = -1"
  using assms
proof (induction xs arbitrary: i)
  case Nil
  then show ?case by auto
next
  case (Cons x xs)
  from Cons.prems have "take (length sub) (drop 0 (x # xs)) \<noteq> sub" by blast
  then have ne: "take (length sub) (x # xs) \<noteq> sub" by simp
  have "\<forall>j \<le> length xs. take (length sub) (drop j xs) \<noteq> sub"
  proof (intro allI impI)
    fix j assume "j \<le> length xs"
    then have "Suc j \<le> length (x # xs)" by simp
    with Cons.prems have "take (length sub) (drop (Suc j) (x # xs)) \<noteq> sub" by blast
    then show "take (length sub) (drop j xs) \<noteq> sub" by simp
  qed
  from Cons.IH [OF this] ne show ?case by simp
qed

lemma find_bytes_nat:
  "n \<le> length V \<Longrightarrow> find_bytes V sub (int n) = find_at sub (drop n V) n"
  by (simp add: find_bytes_def clamp_index_def)

lemma slice_nat:
  "lo \<le> hi \<Longrightarrow> hi \<le> length V \<Longrightarrow> bytes_slice V (int lo) (int hi) = take (hi - lo) (drop lo V)"
  by (simp add: bytes_slice_def clamp_index_def)

lemma quote_eq: "quote = [0x22]"
  by (simp add: quote_def bytes_lit_def)

lemma G_eq: "G = [34, 99, 102, 67, 111, 114, 101, 65, 112, 105, 75, 101, 121, 34, 58, 34]"
  by (simp add: G_def bytes_lit_def)

lemma length_G: "length G = 16"
  by (simp add: G_eq)

lemma utf8_decode_G:
  "utf8_decode G = Some [34, 99, 102, 67, 111, 114, 101, 65, 112, 105, 75, 101, 121, 34, 58, 34]"
  by (simp add: G_eq)

subsection \<open>The steps of \<open>E\<close> after a successful fetch\<close>

lemma E_fetched:
  "fetched net M \<Longrightarrow> E out net = decompress_step out (butlast (fetched_trace M)) M"
  by (auto simp: fetched_def E_def fetched_trace_def butlast_append Let_def
      split: sum.splits)

lemma decompress_step_None:
  "zlib_decompress M = None \<Longrightarrow>
   decompress_step out (butlast (fetched_trace M)) M =
     (fetched_trace M @ [Print Stderr [Lit ''decompression error: '', Exc ZlibError]], None)"
  by (simp add: decompress_step_def fetched_trace_def butlast_append Let_def)

lemma decompress_step_Some:
  "zlib_decompress M = Some V \<Longrightarrow>
   decompress_step out (butlast (fetched_trace M)) M = extract_value out (fetched_trace M) V"
  by (simp add: decompress_step_def fetched_trace_def butlast_append Let_def)

lemma extract_value_absent:
  assumes "\<forall>i \<le> length V. \<not> occurs_at G V i"
  shows "extract_value out (fetched_trace M) V =
     (scan_trace M V @ [Print Stderr [Lit ''couldnt find string '',
        Str [34, 99, 102, 67, 111, 114, 101, 65, 112, 105, 75, 101, 121, 34, 58, 34]]], None)"
proof -
  from assms have "\<forall>j \<le> length V. take (length G) (drop j V) \<noteq> G"
    by (simp add: occurs_at_def)
  then have "find_at G V 0 = -1" by (rule find_at_none)
  then have "find_bytes V G 0 = -1"
    using find_bytes_nat [of 0 V G] by simp
  then show ?thesis
    by (simp add: extract_value_def scan_trace_def utf8_decode_G Let_def)
qed

lemma find_marker:
  assumes "\<forall>i < length pre. \<not> occurs_at G (pre @ G @ rest) i"
  shows "find_bytes (pre @ G @ rest) G 0 = int (length pre)"
proof -
  have "\<forall>j < length pre. take (length G) (drop j (pre @ (G @ rest))) \<noteq> G"
    using assms by (simp add: occurs_at_def)
  moreover have "take (length G) (G @ rest) = G" by simp
  ultimately have "find_at G (pre @ (G @ rest)) 0 = int (0 + length pre)"
    by (rule find_at_first)
  then show ?thesis
    using find_bytes_nat [of 0 "pre @ G @ rest" G] by simp
qed

lemma find_quote:
  assumes "0x22 \<notin> set val"
  shows "find_bytes (pre @ G @ val @ quote @ post) quote (int (length pre) + len G)
           = int (length pre + length G + length val)"
proof -
  let ?V = "pre @ G @ val @ quote @ post"
  let ?n = "length pre + length G"
  have d: "drop ?n ?V = val @ (quote @ post)" by simp
  have "\<forall>j < length val. take (length quote) (drop j (val @ (quote @ post))) \<noteq> quote"
  proof (intro allI impI)
    fix j assume j: "j < length val"
    then have "val ! j \<in> set val" by simp
    with assms have "val ! j \<noteq> 0x22" by metis
    moreover from j have "take 1 (drop j (val @ (quote @ post))) = [val ! j]"
      by (simp add: take_Suc_conv_app_nth [of 0] hd_drop_conv_nth take_Suc)
    ultimately show "take (length quote) (drop j (val @ (quote @ post))) \<noteq> quote"
      by (simp add: quote_eq)
  qed
  moreover have "take (length quote) (quote @ post) = quote" by simp
  ultimately have "find_at quote (val @ (quote @ post)) ?n = int (?n + length val)"
    by (rule find_at_first)
  then show ?thesis
    using find_bytes_nat [of ?n ?V quote] d by (simp add: len_def)
qed

lemma find_no_quote:
  assumes "0x22 \<notin> set rest"
  shows "find_bytes (pre @ G @ rest) quote (int (length pre) + len G) = -1"
proof -
  let ?V = "pre @ G @ rest"
  let ?n = "length pre + length G"
  have d: "drop ?n ?V = rest" by simp
  have "\<forall>j \<le> length rest. take (length quote) (drop j rest) \<noteq> quote"
  proof (intro allI impI)
    fix j assume j: "j \<le> length rest"
    show "take (length quote) (drop j rest) \<noteq> quote"
    proof (cases "j < length rest")
      case True
      then have "rest ! j \<in> set rest" by simp
      with assms have "rest ! j \<noteq> 0x22" by metis
      moreover from True have "take 1 (drop j rest) = [rest ! j]"
        by (simp add: hd_drop_conv_nth take_Suc)
      ultimately show ?thesis by (simp add: quote_eq)
    next
      case False
      with j show ?thesis by (simp add: quote_eq)
    qed
  qed
  then have "find_at quote rest ?n = -1" by (rule find_at_none)
  then show ?thesis
    using find_bytes_nat [of ?n ?V quote] d by (simp add: len_def)
qed

lemma extract_value_unterminated:
  assumes "\<forall>i < length pre. \<not> occurs_at G (pre @ G @ rest) i"
    and "0x22 \<notin> set rest"
  shows "extract_value out (fetched_trace M) (pre @ G @ rest) =
     (scan_trace M (pre @ G @ rest)
        @ [Bytes_find (pre @ G @ rest) quote (int (length pre) + len G),
           Print Stderr [Lit ''no closing quote'']], None)"
  using find_marker [OF assms(1)] find_no_quote [OF assms(2), of pre]
  by (simp add: extract_value_def scan_trace_def Let_def)

lemma extract_value_terminated:
  assumes "\<forall>i < length pre. \<not> occurs_at G (pre @ G @ val @ quote @ post) i"
    and "0x22 \<notin> set val"
  shows "extract_value out (fetched_trace M) (pre @ G @ val @ quote @ post) =
     (case utf8_decode val of
        None \<Rightarrow>
          (scan_trace M (pre @ G @ val @ quote @ post)
             @ [Bytes_find (pre @ G @ val @ quote @ post) quote (int (length pre) + len G),
                Print Stderr [Lit ''error: '', Exc UnicodeDecodeError]], None)
      | Some Q \<Rightarrow>
          if encodable out Q then
            (scan_trace M (pre @ G @ val @ quote @ post)
               @ [Bytes_find (pre @ G @ val @ quote @ post) quote (int (length pre) + len G),
                  Print Stdout [Lit ''api key: '', Str Q]], Some Q)
          else
            (scan_trace M (pre @ G @ val @ quote @ post)
               @ [Bytes_find (pre @ G @ val @ quote @ post) quote (int (length pre) + len G),
                  Print Stderr [Lit ''error: '', Exc UnicodeEncodeError]], None))"
proof -
  let ?V = "pre @ G @ val @ quote @ post"
  have n: "find_bytes ?V G 0 = int (length pre)"
    using find_marker [of pre "val @ quote @ post"] assms(1) by simp
  have "find_bytes ?V quote (int (length pre) + len G)
      = int (length pre + length G + length val)"
    using assms(2) by (rule find_quote)
  then have p: "find_bytes ?V quote (int (length pre) + int (length G))
      = int (length pre) + int (length G) + int (length val)"
    by (simp add: len_def)
  have "bytes_slice ?V (int (length pre + length G)) (int (length pre + length G + length val))
      = take (length pre + length G + length val - (length pre + length G))
          (drop (length pre + length G) ?V)"
    by (rule slice_nat) simp_all
  then have s: "bytes_slice ?V (int (length pre) + int (length G))
      (int (length pre) + int (length G) + int (length val)) = val"
    by simp
  show ?thesis
    by (simp add: extract_value_def scan_trace_def Let_def n p s handler_def len_def
        split: option.splits)
qed

subsection \<open>The scan in terms of first occurrences\<close>

lemma fetched_server: "st < 400 \<Longrightarrow> fetched (server st M) M"
  by (simp add: fetched_def server_def raise_for_status_def)

lemma first_occurrence_split:
  assumes "first_occurrence sub V n"
  shows "V = take n V @ sub @ drop (n + length sub) V"
    and "\<forall>i < length (take n V). \<not> occurs_at sub V i"
proof -
  from assms have o: "n \<le> length V" "take (length sub) (drop n V) = sub"
    and f: "\<forall>i < n. \<not> occurs_at sub V i"
    by (auto simp: first_occurrence_def occurs_at_def)
  have "drop n V = take (length sub) (drop n V) @ drop (length sub) (drop n V)"
    by (simp only: append_take_drop_id)
  then have "drop n V = sub @ drop (n + length sub) V"
    using o(2) by (simp add: add.commute)
  then show "V = take n V @ sub @ drop (n + length sub) V"
    by (metis append_take_drop_id)
  from f o(1) show "\<forall>i < length (take n V). \<not> occurs_at sub V i" by simp
qed

lemma first_quote_split:
  assumes "first_occurrence quote R k"
  shows "R = take k R @ quote @ drop (Suc k) R" and "0x22 \<notin> set (take k R)"
proof -
  from first_occurrence_split(1) [OF assms]
  show "R = take k R @ quote @ drop (Suc k) R" by (simp add: quote_eq)
  from assms have k: "k \<le> length R" and f: "\<forall>i < k. \<not> occurs_at quote R i"
    by (auto simp: first_occurrence_def occurs_at_def)
  show "0x22 \<notin> set (take k R)"
  proof
    assume "0x22 \<in> set (take k R)"
    then obtain i where i: "i < length (take k R)" "take k R ! i = 0x22"
      by (auto simp: in_set_conv_nth)
    then have ik: "i < k" "i < length R" "R ! i = 0x22" by simp_all
    then have "take 1 (drop i R) = [0x22]"
      by (simp add: take_Suc hd_drop_conv_nth)
    with ik have "occurs_at quote R i" by (simp add: occurs_at_def quote_eq)
    with f ik(1) show False by blast
  qed
qed

lemma absent_quote: "absent quote R \<Longrightarrow> 0x22 \<notin> set R"
proof
  assume a: "absent quote R" and "0x22 \<in> set R"
  then obtain i where i: "i < length R" "R ! i = 0x22" by (auto simp: in_set_conv_nth)
  then have "take 1 (drop i R) = [0x22]" by (simp add: take_Suc hd_drop_conv_nth)
  with i have "occurs_at quote R i" by (simp add: occurs_at_def quote_eq)
  with a i(1) show False by (simp add: absent_def)
qed

lemma scan_absent:
  assumes "absent G V"
  shows "extract_value out (fetched_trace M) V =
     (scan_trace M V @ [Print Stderr [Lit ''couldnt find string '',
        Str [34, 99, 102, 67, 111, 114, 101, 65, 112, 105, 75, 101, 121, 34, 58, 34]]], None)"
  using assms by (intro extract_value_absent) (simp add: absent_def)

lemma scan_unterminated:
  assumes "first_occurrence G V n" and "absent quote (drop (n + length G) V)"
  shows "extract_value out (fetched_trace M) V =
     (scan_trace M V @ [Bytes_find V quote (int n + len G),
                        Print Stderr [Lit ''no closing quote'']], None)"
proof -
  let ?R = "drop (n + length G) V"
  from assms(1) have n: "n \<le> length V" by (simp add: first_occurrence_def occurs_at_def)
  note s = first_occurrence_split [OF assms(1)]
  have "\<forall>i < length (take n V). \<not> occurs_at G (take n V @ G @ ?R) i"
    using s by simp
  from extract_value_unterminated [OF this absent_quote [OF assms(2)], of out M] s(1) n
  show ?thesis by (simp add: min_absorb2)
qed

lemma scan_terminated:
  assumes "first_occurrence G V n"
    and "first_occurrence quote (drop (n + length G) V) k"
  shows "extract_value out (fetched_trace M) V =
     (case utf8_decode (take k (drop (n + length G) V)) of
        None \<Rightarrow>
          (scan_trace M V @ [Bytes_find V quote (int n + len G),
                             Print Stderr [Lit ''error: '', Exc UnicodeDecodeError]], None)
      | Some Q \<Rightarrow>
          if encodable out Q then
            (scan_trace M V @ [Bytes_find V quote (int n + len G),
                               Print Stdout [Lit ''api key: '', Str Q]], Some Q)
          else
            (scan_trace M V @ [Bytes_find V quote (int n + len G),
                               Print Stderr [Lit ''error: '', Exc UnicodeEncodeError]], None))"
proof -
  let ?R = "drop (n + length G) V"
  from assms(1) have n: "n \<le> length V" by (simp add: first_occurrence_def occurs_at_def)
  note s = first_occurrence_split [OF assms(1)]
  note q = first_quote_split [OF assms(2)]
  define W where "W = take n V @ G @ take k ?R @ quote @ drop (Suc k) ?R"
  have "W = take n V @ G @ ?R" unfolding W_def using q(1) by simp
  with s(1) have wv: "W = V" by simp
  have l: "length (take n V) = n" using n by simp
  have "\<forall>i < length (take n V). \<not> occurs_at G W i"
    using s(2) wv by simp
  note e = extract_value_terminated [OF this [unfolded W_def] q(2), of out M, folded W_def]
  show ?thesis using e unfolding wv l .
qed

subsection \<open>Occurrences in concrete buffers\<close>

lemma first_occurrence_0: "take (length sub) V = sub \<Longrightarrow> first_occurrence sub V 0"
  by (simp add: first_occurrence_def occurs_at_def)

lemma first_occurrence_Cons:
  assumes "take (length sub) (x # V) \<noteq> sub" and "first_occurrence sub V n"
  shows "first_occurrence sub (x # V) (Suc n)"
proof -
  from assms(2) have o: "occurs_at sub V n" and f: "\<forall>i < n. \<not> occurs_at sub V i"
    by (auto simp: first_occurrence_def)
  from o have "occurs_at sub (x # V) (Suc n)" by (simp add: occurs_at_def)
  moreover have "\<not> occurs_at sub (x # V) i" if "i < Suc n" for i
  proof (cases i)
    case 0
    with assms(1) show ?thesis by (simp add: occurs_at_def)
  next
    case (Suc j)
    with that f have "\<not> occurs_at sub V j" by simp
    with Suc show ?thesis by (simp add: occurs_at_def)
  qed
  ultimately show ?thesis by (simp add: first_occurrence_def)
qed

lemma absent_Nil: "sub \<noteq> [] \<Longrightarrow> absent sub []"
  by (auto simp: absent_def occurs_at_def)

lemma absent_Cons:
  assumes "take (length sub) (x # V) \<noteq> sub" and "absent sub V"
  shows "absent sub (x # V)"
proof -
  have "\<not> occurs_at sub (x # V) i" if "i \<le> length (x # V)" for i
  proof (cases i)
    case 0
    with assms(1) show ?thesis by (simp add: occurs_at_def)
  next
    case (Suc j)
    with that assms(2) have "\<not> occurs_at sub V j" by (simp add: absent_def)
    with Suc show ?thesis by (simp add: occurs_at_def)
  qed
  then show ?thesis by (simp add: absent_def)
qed

lemma E_scan:
  assumes "fetched net M" and "zlib_decompress M = Some V"
  shows "E out net = extract_value out (fetched_trace M) V"
  using assms by (simp add: E_fetched decompress_step_Some)

lemma main_failure:
  "snd (E out net) = None \<Longrightarrow>
   main out net = (fst (E out net) @ [Print Stderr [Lit ''failed to extract api key'']], 1)"
  by (cases "E out net") (simp add: main_def truthy_def)

text \<open>Scenario A of the specification: the buffer \<^verbatim>\<open>{"cfCoreApiKey":"abc123XYZ"}\<close>.\<close>

definition scenario_A :: "byte list" where
  "scenario_A = [123] @ G @ [97, 98, 99, 49, 50, 51, 88, 89, 90] @ quote @ [125]"

lemma scenario_A_marker: "first_occurrence G scenario_A 1"
  unfolding scenario_A_def One_nat_def append_Cons append_Nil
  by (rule first_occurrence_Cons) (simp_all add: first_occurrence_0 G_eq)

lemma scenario_A_quote: "first_occurrence quote (drop (1 + length G) scenario_A) 9"
proof -
  have "drop (1 + length G) scenario_A = [97, 98, 99, 49, 50, 51, 88, 89, 90, 34, 125]"
    by (simp add: scenario_A_def quote_eq)
  moreover have "first_occurrence quote [97, 98, 99, 49, 50, 51, 88, 89, 90, 34, 125]
      (Suc (Suc (Suc (Suc (Suc (Suc (Suc (Suc (Suc 0)))))))))"
    by (intro first_occurrence_Cons first_occurrence_0) (simp_all add: quote_eq)
  ultimately show ?thesis by (simp add: eval_nat_numeral)
qed

subsection \<open>The shape of every run\<close>

lemma S_eq: "S = ''bytes=82926761-83010957''"
  by (simp add: S_def D_def K_def str_int_def str_nat.simps digit_def)

lemma stderr_lines_append: "stderr_lines (a @ b) = stderr_lines a @ stderr_lines b"
  by (induction a rule: stderr_lines.induct) simp_all

lemma handler_eq:
  "handler tr e =
     (tr @ [Print Stderr [Lit (case e of RequestException c \<Rightarrow> ''network error: ''
                                | _ \<Rightarrow> ''error: ''), Exc e]], None)"
  by (cases e) (simp_all add: handler_def)

lemma E_fetch_failed:
  assumes "fetch_failed net"
  shows "\<exists>e. E out net = handler fetch_trace e
    \<and> (e = RequestException ''HTTPError'' \<or> net get_request = Inl e)"
proof (cases "net get_request")
  case (Inl e)
  then show ?thesis by (auto simp: E_def)
next
  case (Inr L)
  with assms have "raise_for_status L = Inl (RequestException ''HTTPError'')"
    by (simp add: fetch_failed_def raise_for_status_def split: if_splits)
  with Inr show ?thesis by (simp add: E_def)
qed

lemma fetch_cases: "fetch_failed net \<or> fetched net (case net get_request of Inr L \<Rightarrow> content L)"
  by (auto simp: fetch_failed_def fetched_def split: sum.splits)

lemma extract_value_shape:
  "\<exists>rest r. extract_value out (fetched_trace M) V = (scan_trace M V @ rest, r)
     \<and> filter is_get rest = [] \<and> filter is_decompress rest = []"
  by (auto simp: extract_value_def scan_trace_def handler_eq Let_def split: option.splits)

lemma calls_fetch_trace: "calls fetch_trace = [Http_get get_request]"
  by (simp add: calls_def fetch_trace_def)

lemma calls_fetched_trace: "calls (fetched_trace M) = [Http_get get_request, Zlib_decompress M]"
  by (simp add: calls_def fetched_trace_def fetch_trace_def)

lemma calls_scan_trace:
  "calls (scan_trace M V) = [Http_get get_request, Zlib_decompress M, Bytes_find V G 0]"
  by (simp add: calls_def scan_trace_def fetched_trace_def fetch_trace_def)

lemma calls_append: "calls (a @ b) = calls a @ calls b"
  by (simp add: calls_def)

lemma E_decompress_failed:
  assumes "fetched net M" and "zlib_decompress M = None"
  shows "E out net = (fetched_trace M @ [Print Stderr [Lit ''decompression error: '', Exc ZlibError]],
                  None)"
  using assms by (simp add: E_fetched decompress_step_None)

lemma E_trace_shape:
  "\<exists>rest. fst (E out net) = fetch_trace @ rest \<and> filter is_get rest = []
     \<and> length (filter is_decompress rest) \<le> 1"
proof (cases "fetch_failed net")
  case True
  from E_fetch_failed [OF this, where out = out] show ?thesis by (auto simp: handler_eq)
next
  case False
  with fetch_cases [of net] obtain M where f: "fetched net M" by auto
  show ?thesis
  proof (cases "zlib_decompress M")
    case None
    then show ?thesis
      by (simp add: E_decompress_failed [OF f] fetched_trace_def)
  next
    case (Some V)
    from extract_value_shape [of out M V] obtain rest r where
      x: "extract_value out (fetched_trace M) V = (scan_trace M V @ rest, r)"
      and g: "filter is_get rest = []" "filter is_decompress rest = []" by blast
    have "E out net = (scan_trace M V @ rest, r)"
      by (simp add: E_fetched [OF f] decompress_step_Some [OF Some] x)
    then have "fst (E out net) = fetch_trace @
        ([Print Stdout [Lit ''downloaded '', Lit (str_int (len M)), Lit '' bytes (compressed)''],
          Zlib_decompress M,
          Print Stdout [Lit ''decompressed to '', Lit (str_int (len V)), Lit '' bytes''],
          Bytes_find V G 0] @ rest)"
      by (simp add: scan_trace_def fetched_trace_def)
    moreover have "filter is_get
        ([Print Stdout [Lit ''downloaded '', Lit (str_int (len M)), Lit '' bytes (compressed)''],
          Zlib_decompress M,
          Print Stdout [Lit ''decompressed to '', Lit (str_int (len V)), Lit '' bytes''],
          Bytes_find V G 0] @ rest) = []"
      using g by simp
    moreover have "length (filter is_decompress
        ([Print Stdout [Lit ''downloaded '', Lit (str_int (len M)), Lit '' bytes (compressed)''],
          Zlib_decompress M,
          Print Stdout [Lit ''decompressed to '', Lit (str_int (len V)), Lit '' bytes''],
          Bytes_find V G 0] @ rest)) \<le> 1"
      using g by simp
    ultimately show ?thesis by blast
  qed
qed

lemma gets_E: "filter is_get (fst (E out net)) = [Http_get get_request]"
  using E_trace_shape [of out net] by (auto simp: fetch_trace_def)

lemma request_eq:
  "get_request = \<lparr>url = J, headers = [(''Range'', ''bytes=82926761-83010957'')], timeout = 30\<rparr>"
  by (simp add: get_request_def T_def S_eq)

lemma E_network_error:
  assumes "net get_request = Inl (RequestException c)
    \<or> (\<exists>L. net get_request = Inr L \<and> 400 \<le> status_code L \<and> status_code L < 600)"
  shows "\<exists>c. E out net = (fetch_trace @ [Print Stderr [Lit ''network error: '',
                                       Exc (RequestException c)]], None)"
  using assms by (auto simp: E_def handler_def raise_for_status_def)

lemma E_result:
  "(\<forall>Q. snd (E out net) = Some Q \<longrightarrow>
      last (fst (E out net)) = Print Stdout [Lit ''api key: '', Str Q]
      \<and> stderr_lines (fst (E out net)) = [])
   \<and> (snd (E out net) = None \<longrightarrow>
        stderr_lines (fst (E out net)) \<noteq> []
        \<and> (\<forall>qs. Print Stdout (Lit ''api key: '' # qs) \<notin> set (fst (E out net))))"
  by (auto simp: E_def handler_eq decompress_step_def extract_value_def fetch_trace_def
      Let_def stderr_lines_append split: sum.splits option.splits)

lemma E_scenario_A:
  "E out (server 206 (zlib_store scenario_A)) =
     (scan_trace (zlib_store scenario_A) scenario_A
        @ [Bytes_find scenario_A quote (int 1 + len G),
           Print Stdout [Lit ''api key: '', Str [97, 98, 99, 49, 50, 51, 88, 89, 90]]],
      Some [97, 98, 99, 49, 50, 51, 88, 89, 90])"
proof -
  have a: "fetched (server 206 (zlib_store scenario_A)) (zlib_store scenario_A)"
    by (simp add: fetched_server)
  have b: "zlib_decompress (zlib_store scenario_A) = Some scenario_A"
    by (rule zlib_decompress_store) (simp add: scenario_A_def length_G quote_eq)
  have c: "utf8_decode (take 9 (drop (1 + length G) scenario_A))
      = Some [97, 98, 99, 49, 50, 51, 88, 89, 90]"
    by (simp add: scenario_A_def quote_eq)
  show ?thesis
    by (simp only: E_scan [OF a b] scan_terminated [OF scenario_A_marker scenario_A_quote] c)
       (simp add: encodable_def)
qed

lemma E_empty_value:
  "E utf8 (server 206 (zlib_store (G @ quote))) =
     (scan_trace (zlib_store (G @ quote)) (G @ quote)
        @ [Bytes_find (G @ quote) quote (int 0 + len G),
           Print Stdout [Lit ''api key: '', Str []]],
      Some [])"
proof -
  have a: "fetched (server 206 (zlib_store (G @ quote))) (zlib_store (G @ quote))"
    by (simp add: fetched_server)
  have b: "zlib_decompress (zlib_store (G @ quote)) = Some (G @ quote)"
    by (rule zlib_decompress_store) (simp add: length_G quote_eq)
  have c: "first_occurrence G (G @ quote) 0"
    by (simp add: first_occurrence_0)
  have d: "first_occurrence quote (drop (0 + length G) (G @ quote)) 0"
    by (simp add: first_occurrence_0)
  have e: "utf8_decode (take 0 (drop (0 + length G) (G @ quote))) = Some []"
    by simp
  show ?thesis
    by (simp only: E_scan [OF a b] scan_terminated [OF c d] e) (simp add: encodable_def)
qed

subsection \<open>Standard output and the credential\<close>

lemma encodable_Cons: "encodable out (c # Q) = ((c < 128 \<or> out c) \<and> encodable out Q)"
  by (simp add: encodable_def)

lemma unat_byte_less: "unat (b :: byte) < 256"
  using unsigned_less [of b, where ?'a = nat] by simp

text \<open>A strict decoding holds no surrogate and nothing above U+10FFFF, so a UTF-8
  standard output can encode it.\<close>

lemma utf8_decode_step:
  assumes "utf8_decode (b # bs) = Some Q"
  shows "\<exists>c Q' m. Q = c # Q' \<and> (c < 128 \<or> utf8 c) \<and> utf8_decode (drop m bs) = Some Q'"
proof -
  let ?n = "unat b"
  from assms consider (one) "?n < 0x80" | (two) "0xC2 \<le> ?n" "?n \<le> 0xDF"
    | (three) "0xE0 \<le> ?n" "?n \<le> 0xEF" | (four) "0xF0 \<le> ?n" "?n \<le> 0xF4"
    by (auto simp: Let_def split: if_splits)
  then show ?thesis
  proof cases
    case one
    with assms obtain Q' where "utf8_decode bs = Some Q'" "Q = ?n # Q'"
      by (auto simp: Let_def)
    with one show ?thesis by (intro exI [of _ ?n] exI [of _ Q'] exI [of _ 0]) simp
  next
    case two
    with assms obtain c1 r Q' where bs: "bs = c1 # r" and c: "cont c1 0x80 0xBF"
      and d: "utf8_decode r = Some Q'"
      and q: "Q = ((?n - 0xC0) * 64 + (unat c1 - 0x80)) # Q'"
      by (auto simp: Let_def split: list.splits if_splits)
    from two c have "(?n - 0xC0) * 64 + (unat c1 - 0x80) < 0xD800"
      unfolding cont_def by arith
    with bs d q show ?thesis
      by (intro exI [of _ "(?n - 0xC0) * 64 + (unat c1 - 0x80)"] exI [of _ Q'] exI [of _ 1])
         (simp add: utf8_def)
  next
    case three
    with assms obtain c1 c2 r Q' where bs: "bs = c1 # c2 # r"
      and c: "cont c1 (if ?n = 0xE0 then 0xA0 else 0x80) (if ?n = 0xED then 0x9F else 0xBF)"
        "cont c2 0x80 0xBF"
      and d: "utf8_decode r = Some Q'"
      and q: "Q = ((?n - 0xE0) * 4096 + (unat c1 - 0x80) * 64 + (unat c2 - 0x80)) # Q'"
      by (auto simp: Let_def split: list.splits if_splits)
    let ?v = "(?n - 0xE0) * 4096 + (unat c1 - 0x80) * 64 + (unat c2 - 0x80)"
    have "?v < 0xD800 \<or> (0xE000 \<le> ?v \<and> ?v < 0x110000)"
    proof (cases "?n \<le> 0xEC")
      case True
      with three c have "?v < 0xD800" unfolding cont_def by (simp split: if_splits; arith)
      then show ?thesis by simp
    next
      case False
      show ?thesis
      proof (cases "?n = 0xED")
        case True
        with c have "?v < 0xD800" unfolding cont_def by (simp; arith)
        then show ?thesis by simp
      next
        case False
        with \<open>\<not> ?n \<le> 0xEC\<close> three c have "0xE000 \<le> ?v \<and> ?v < 0x110000"
          unfolding cont_def by (simp; arith)
        then show ?thesis by simp
      qed
    qed
    with bs d q show ?thesis
      by (intro exI [of _ ?v] exI [of _ Q'] exI [of _ 2]) (simp add: utf8_def)
  next
    case four
    with assms obtain c1 c2 c3 r Q' where bs: "bs = c1 # c2 # c3 # r"
      and c: "cont c1 (if ?n = 0xF0 then 0x90 else 0x80) (if ?n = 0xF4 then 0x8F else 0xBF)"
        "cont c2 0x80 0xBF" "cont c3 0x80 0xBF"
      and d: "utf8_decode r = Some Q'"
      and q: "Q = ((?n - 0xF0) * 262144 + (unat c1 - 0x80) * 4096
                    + (unat c2 - 0x80) * 64 + (unat c3 - 0x80)) # Q'"
      by (auto simp: Let_def split: list.splits if_splits)
    let ?v = "(?n - 0xF0) * 262144 + (unat c1 - 0x80) * 4096
                    + (unat c2 - 0x80) * 64 + (unat c3 - 0x80)"
    from four c have "0xE000 \<le> ?v \<and> ?v < 0x110000"
      unfolding cont_def by (simp split: if_splits; arith)
    with bs d q show ?thesis
      by (intro exI [of _ ?v] exI [of _ Q'] exI [of _ 3]) (simp add: utf8_def)
  qed
qed

lemma utf8_decode_encodable: "utf8_decode bs = Some Q \<Longrightarrow> encodable utf8 Q"
proof (induction "length bs" arbitrary: bs Q rule: less_induct)
  case less
  show ?case
  proof (cases bs)
    case Nil
    with less.prems show ?thesis by (simp add: encodable_def)
  next
    case (Cons b r)
    from utf8_decode_step [OF less.prems [unfolded Cons]] obtain c Q' m where
      q: "Q = c # Q'" and c: "c < 128 \<or> utf8 c" and d: "utf8_decode (drop m r) = Some Q'"
      by blast
    from Cons have "length (drop m r) < length bs" by simp
    from less.hyps [OF this d] have "encodable utf8 Q'" .
    with q c show ?thesis by (simp add: encodable_Cons)
  qed
qed

lemma accent_marker: "first_occurrence G accent_buffer 0"
  by (simp add: accent_buffer_def first_occurrence_0)

lemma accent_quote: "first_occurrence quote (drop (0 + length G) accent_buffer) 2"
proof -
  have "first_occurrence quote ([0xC3, 0xA9] @ quote) (Suc (Suc 0))"
    unfolding append_Cons append_Nil
    by (intro first_occurrence_Cons first_occurrence_0) (simp_all add: quote_eq)
  then show ?thesis by (simp add: accent_buffer_def eval_nat_numeral)
qed

lemma accent_text: "utf8_decode (take 2 (drop (0 + length G) accent_buffer)) = Some [233]"
  by (simp add: accent_buffer_def quote_eq cont_def)

lemma accent_fetched:
  "st < 400 \<Longrightarrow> fetched (server st (zlib_store accent_buffer)) (zlib_store accent_buffer)"
  by (rule fetched_server)

lemma accent_decompress: "zlib_decompress (zlib_store accent_buffer) = Some accent_buffer"
  by (rule zlib_decompress_store) (simp add: accent_buffer_def length_G quote_eq)

lemma E_accent:
  assumes "st < 400"
  shows "E out (server st (zlib_store accent_buffer)) =
     (if encodable out [233] then
        (scan_trace (zlib_store accent_buffer) accent_buffer
           @ [Bytes_find accent_buffer quote (int 0 + len G),
              Print Stdout [Lit ''api key: '', Str [233]]], Some [233])
      else
        (scan_trace (zlib_store accent_buffer) accent_buffer
           @ [Bytes_find accent_buffer quote (int 0 + len G),
              Print Stderr [Lit ''error: '', Exc UnicodeEncodeError]], None))"
  by (simp only: E_scan [OF accent_fetched [OF assms] accent_decompress]
      scan_terminated [OF accent_marker accent_quote] accent_text option.case)




lemma E_some:
  assumes "fetched net M" and "zlib_decompress M = Some V"
    and "first_occurrence G V n"
    and "first_occurrence quote (drop (n + length G) V) k"
    and "snd (E out net) = Some Q"
  shows "utf8_decode (take k (drop (n + length G) V)) = Some Q \<and> encodable out Q"
  using assms(5)
  by (simp add: E_scan [OF assms(1,2)] scan_terminated [OF assms(3,4)]
      split: option.splits if_splits)

subsection \<open>Redirects\<close>

lemma resolve_redirects_first:
  "fst (resolve_redirects srv n rq) \<noteq> [] \<and> hd (fst (resolve_redirects srv n rq)) = rq"
  by (simp add: resolve_redirects.simps [of srv n rq]
      split: sum.splits option.splits prod.splits)

lemma resolve_redirects_length:
  "length (fst (resolve_redirects srv n rq)) \<le> Suc (max_redirects - n)"
proof (induction srv n rq rule: resolve_redirects.induct)
  case (1 srv n rq)
  show ?case
  proof (cases "srv rq")
    case (Inl e)
    then show ?thesis by (simp add: resolve_redirects.simps [of srv n rq])
  next
    case (Inr r)
    show ?thesis
    proof (cases "get_redirect_target r")
      case None
      with Inr show ?thesis by (simp add: resolve_redirects.simps [of srv n rq])
    next
      case (Some u)
      show ?thesis
      proof (cases "max_redirects \<le> n")
        case True
        with Inr Some show ?thesis by (simp add: resolve_redirects.simps [of srv n rq])
      next
        case False
        from "1.IH" [OF Inr Some False]
        have "length (fst (resolve_redirects srv (Suc n) (rq\<lparr>url := u\<rparr>)))
            \<le> Suc (max_redirects - Suc n)" .
        with Inr Some False show ?thesis
          by (auto simp: resolve_redirects.simps [of srv n rq] split: prod.splits)
      qed
    qed
  qed
qed

lemma resolve_redirects_same:
  "w \<in> set (fst (resolve_redirects srv n rq)) \<Longrightarrow>
   headers w = headers rq \<and> timeout w = timeout rq"
proof (induction srv n rq rule: resolve_redirects.induct)
  case (1 srv n rq)
  show ?case
  proof (cases "srv rq")
    case (Inl e)
    with "1.prems" show ?thesis by (simp add: resolve_redirects.simps [of srv n rq])
  next
    case (Inr r)
    show ?thesis
    proof (cases "get_redirect_target r")
      case None
      with Inr "1.prems" show ?thesis by (simp add: resolve_redirects.simps [of srv n rq])
    next
      case (Some u)
      show ?thesis
      proof (cases "max_redirects \<le> n")
        case True
        with Inr Some "1.prems" show ?thesis
          by (simp add: resolve_redirects.simps [of srv n rq])
      next
        case False
        from "1.prems" Inr Some False
        have "w = rq \<or> w \<in> set (fst (resolve_redirects srv (Suc n) (rq\<lparr>url := u\<rparr>)))"
          by (simp add: resolve_redirects.simps [of srv n rq] split: prod.splits)
        then show ?thesis
        proof
          assume "w = rq"
          then show ?thesis by simp
        next
          assume "w \<in> set (fst (resolve_redirects srv (Suc n) (rq\<lparr>url := u\<rparr>)))"
          from "1.IH" [OF Inr Some False this] show ?thesis by simp
        qed
      qed
    qed
  qed
qed

lemma wire_first: "wire srv rq \<noteq> [] \<and> hd (wire srv rq) = rq"
  by (simp add: wire_def requests_get_def resolve_redirects_first)

lemma wire_length: "length (wire srv rq) \<le> 31"
  using resolve_redirects_length [of srv 0 rq]
  by (simp add: wire_def requests_get_def max_redirects_def)

lemma wire_same: "w \<in> set (wire srv rq) \<Longrightarrow> headers w = headers rq \<and> timeout w = timeout rq"
  by (simp add: wire_def requests_get_def resolve_redirects_same)

lemma wire_error: "srv rq = Inl e \<Longrightarrow> wire srv rq = [rq]"
  by (simp add: wire_def requests_get_def resolve_redirects.simps [of srv 0 rq])

lemma wire_single:
  "srv rq = Inr r \<Longrightarrow> get_redirect_target r = None \<Longrightarrow> wire srv rq = [rq]"
  by (simp add: wire_def requests_get_def resolve_redirects.simps [of srv 0 rq])

lemma wire_redirected:
  assumes "srv rq = Inr r" and "get_redirect_target r = Some u"
  shows "take 2 (wire srv rq) = [rq, rq\<lparr>url := u\<rparr>]"
proof -
  obtain ws res where p: "resolve_redirects srv (Suc 0) (rq\<lparr>url := u\<rparr>) = (ws, res)"
    by (cases "resolve_redirects srv (Suc 0) (rq\<lparr>url := u\<rparr>)")
  from resolve_redirects_first [of srv "Suc 0" "rq\<lparr>url := u\<rparr>"] p
  have "ws \<noteq> []" and "hd ws = rq\<lparr>url := u\<rparr>" by simp_all
  then have "take 1 ws = [rq\<lparr>url := u\<rparr>]" by (cases ws) simp_all
  with assms p show ?thesis
    by (simp add: wire_def requests_get_def resolve_redirects.simps [of srv 0 rq]
        max_redirects_def numeral_2_eq_2)
qed

lemma http_gets_append: "http_gets srv (a @ b) = http_gets srv a @ http_gets srv b"
  by (induction srv a rule: http_gets.induct) simp_all

lemma http_gets_none: "filter is_get tr = [] \<Longrightarrow> http_gets srv tr = []"
  by (induction srv tr rule: http_gets.induct) simp_all

lemma http_gets_E: "http_gets srv (fst (E out net)) = wire srv get_request"
proof -
  from E_trace_shape [of out net] obtain rest where
    "fst (E out net) = fetch_trace @ rest" and "filter is_get rest = []" by blast
  then show ?thesis
    by (simp add: http_gets_append http_gets_none) (simp add: fetch_trace_def)
qed

lemma via_http_server: "via (http_server st M) = server st M"
  by (rule ext)
     (simp add: via_def requests_get_def resolve_redirects.simps http_server_def server_def
        get_redirect_target_def)

lemma extract_value_not_network: "classify (extract_value out tr V) \<noteq> NetworkError"
  by (simp add: extract_value_def classify_def handler_def Let_def split: option.splits)

lemma E_fetched_outcome:
  assumes "fetched net M"
  shows "classify (E out net) \<noteq> NetworkError
    \<and> take 2 (calls (fst (E out net))) = [Http_get get_request, Zlib_decompress M]"
proof (cases "zlib_decompress M")
  case None
  note e = E_decompress_failed [OF assms None]
  show ?thesis
    by (simp add: e classify_def calls_append calls_fetched_trace)
next
  case (Some V)
  from extract_value_shape [of out M V] obtain rest r where
    x: "extract_value out (fetched_trace M) V = (scan_trace M V @ rest, r)" by blast
  have "classify (E out net) \<noteq> NetworkError"
    by (simp add: E_scan [OF assms Some] extract_value_not_network)
  moreover have "take 2 (calls (fst (E out net))) = [Http_get get_request, Zlib_decompress M]"
    by (simp add: E_scan [OF assms Some] x calls_append calls_scan_trace)
  ultimately show ?thesis by simp
qed

lemma fetched_status:
  "net get_request = Inr L \<Longrightarrow> \<not> (400 \<le> status_code L \<and> status_code L < 600) \<Longrightarrow>
   fetched net (content L)"
  by (auto simp: fetched_def raise_for_status_def)

section \<open>The claims\<close>

text \<open>C3, as amended (exact delimiter semantics): for every decompressed buffer
  \<open>V\<close> whose first occurrence of the marker is at \<open>n\<close> and in which the first quote
  byte after the marker is \<open>k\<close> bytes after its end: when these \<open>k\<close> bytes are
  valid UTF-8 and standard output can encode their decoding, the credential is
  exactly this decoding, with no trimming and no unescaping, and it is the line
  printed last; and whenever \<open>E\<close> returns a credential, it is this decoding and
  standard output can encode it. A UTF-8 standard output can encode every
  decoding. The witness is Scenario A, which yields \<^verbatim>\<open>abc123XYZ\<close>, here with a
  standard output that encodes ASCII only.\<close>

theorem credential_extracted:
  assumes "fetched net M" and "zlib_decompress M = Some V"
    and "first_occurrence G V n"
    and "first_occurrence quote (drop (n + length G) V) k"
  shows "(\<forall>Q. utf8_decode (take k (drop (n + length G) V)) = Some Q \<longrightarrow> encodable out Q \<longrightarrow>
            snd (E out net) = Some Q \<and> classify (E out net) = Credential Q
            \<and> last (fst (E out net)) = Print Stdout [Lit ''api key: '', Str Q])
    \<and> (\<forall>Q. snd (E out net) = Some Q \<longrightarrow>
            utf8_decode (take k (drop (n + length G) V)) = Some Q \<and> encodable out Q)
    \<and> (\<forall>Q. utf8_decode (take k (drop (n + length G) V)) = Some Q \<longrightarrow> encodable utf8 Q)"
proof (intro conjI allI impI)
  fix Q assume d: "utf8_decode (take k (drop (n + length G) V)) = Some Q"
    and e: "encodable out Q"
  have x: "E out net = (scan_trace M V @ [Bytes_find V quote (int n + len G),
      Print Stdout [Lit ''api key: '', Str Q]], Some Q)"
    by (simp add: E_scan [OF assms(1,2)] scan_terminated [OF assms(3,4)] d e)
  show "snd (E out net) = Some Q" by (simp add: x)
  show "classify (E out net) = Credential Q" by (simp add: x classify_def)
  show "last (fst (E out net)) = Print Stdout [Lit ''api key: '', Str Q]" by (simp add: x)
next
  fix Q assume "snd (E out net) = Some Q"
  from E_some [OF assms this]
  show "utf8_decode (take k (drop (n + length G) V)) = Some Q" and "encodable out Q"
    by simp_all
next
  fix Q assume "utf8_decode (take k (drop (n + length G) V)) = Some Q"
  then show "encodable utf8 Q" by (rule utf8_decode_encodable)
qed

theorem credential_extracted_witness:
  "fetched (server 206 (zlib_store scenario_A)) (zlib_store scenario_A)
   \<and> zlib_decompress (zlib_store scenario_A) = Some scenario_A
   \<and> first_occurrence G scenario_A 1
   \<and> first_occurrence quote (drop (1 + length G) scenario_A) 9
   \<and> utf8_decode (take 9 (drop (1 + length G) scenario_A))
        = Some [97, 98, 99, 49, 50, 51, 88, 89, 90]
   \<and> encodable ascii [97, 98, 99, 49, 50, 51, 88, 89, 90]
   \<and> snd (E ascii (server 206 (zlib_store scenario_A)))
        = Some [97, 98, 99, 49, 50, 51, 88, 89, 90]
   \<and> classify (E ascii (server 206 (zlib_store scenario_A)))
        = Credential [97, 98, 99, 49, 50, 51, 88, 89, 90]"
proof -
  have a: "fetched (server 206 (zlib_store scenario_A)) (zlib_store scenario_A)"
    by (simp add: fetched_server)
  have b: "zlib_decompress (zlib_store scenario_A) = Some scenario_A"
    by (rule zlib_decompress_store) (simp add: scenario_A_def length_G quote_eq)
  have c: "utf8_decode (take 9 (drop (1 + length G) scenario_A))
      = Some [97, 98, 99, 49, 50, 51, 88, 89, 90]"
    by (simp add: scenario_A_def quote_eq)
  have d: "encodable ascii [97, 98, 99, 49, 50, 51, 88, 89, 90]"
    by (simp add: encodable_def)
  from credential_extracted [OF a b scenario_A_marker scenario_A_quote, of ascii] c d
  have "snd (E ascii (server 206 (zlib_store scenario_A)))
        = Some [97, 98, 99, 49, 50, 51, 88, 89, 90]
      \<and> classify (E ascii (server 206 (zlib_store scenario_A)))
        = Credential [97, 98, 99, 49, 50, 51, 88, 89, 90]"
    by blast
  with a b c d scenario_A_marker scenario_A_quote show ?thesis by simp
qed

text \<open>The claim C3 as stated fails: in the buffer made of the marker, the bytes
  \<^verbatim>\<open>c3 a9\<close> and a quote, the marker occurs, a quote follows it and the bytes between
  them are the UTF-8 form of U+00E9; with a standard output that encodes ASCII
  only, printing the credential raises, the catch-all handler absorbs the
  exception and no credential is extracted.\<close>

theorem unencodable_credential_not_extracted:
  "fetched (server 206 (zlib_store accent_buffer)) (zlib_store accent_buffer)
   \<and> zlib_decompress (zlib_store accent_buffer) = Some accent_buffer
   \<and> first_occurrence G accent_buffer 0
   \<and> first_occurrence quote (drop (0 + length G) accent_buffer) 2
   \<and> utf8_decode (take 2 (drop (0 + length G) accent_buffer)) = Some [233]
   \<and> snd (E ascii (server 206 (zlib_store accent_buffer))) = None
   \<and> classify (E ascii (server 206 (zlib_store accent_buffer))) = UnclassifiedError
   \<and> last (fst (E ascii (server 206 (zlib_store accent_buffer))))
       = Print Stderr [Lit ''error: '', Exc UnicodeEncodeError]"
proof -
  have e: "\<not> encodable ascii [233]" by (simp add: encodable_def ascii_def)
  have "snd (E ascii (server 206 (zlib_store accent_buffer))) = None
      \<and> classify (E ascii (server 206 (zlib_store accent_buffer))) = UnclassifiedError
      \<and> last (fst (E ascii (server 206 (zlib_store accent_buffer))))
          = Print Stderr [Lit ''error: '', Exc UnicodeEncodeError]"
    by (simp add: E_accent e classify_def)
  moreover have "fetched (server 206 (zlib_store accent_buffer)) (zlib_store accent_buffer)"
    by (simp add: accent_fetched)
  ultimately show ?thesis
    using accent_decompress accent_marker accent_quote accent_text by blast
qed

text \<open>C4 (marker absence): for every decompressed buffer that does not contain
  the marker bytes, the run is classified as MarkerNotFoundError and produces no
  credential.\<close>

theorem marker_absent:
  assumes "fetched net M" and "zlib_decompress M = Some V" and "absent G V"
  shows "classify (E out net) = MarkerNotFoundError \<and> snd (E out net) = None"
  by (simp add: E_scan [OF assms(1,2)] scan_absent [OF assms(3)] classify_def)

theorem marker_absent_witness:
  "fetched (server 206 (zlib_store [123, 125])) (zlib_store [123, 125])
   \<and> zlib_decompress (zlib_store [123, 125]) = Some [123, 125]
   \<and> absent G [123, 125]
   \<and> classify (E utf8 (server 206 (zlib_store [123, 125]))) = MarkerNotFoundError
   \<and> snd (E utf8 (server 206 (zlib_store [123, 125]))) = None"
proof -
  have a: "fetched (server 206 (zlib_store [123, 125])) (zlib_store [123, 125])"
    by (simp add: fetched_server)
  have b: "zlib_decompress (zlib_store [123, 125]) = Some [123, 125]"
    by (simp add: zlib_decompress_store)
  have c: "absent G [123, 125]"
    by (intro absent_Cons absent_Nil) (simp_all add: G_eq)
  from a b c marker_absent [OF a b c] show ?thesis by simp
qed

text \<open>C5 (unterminated value): for every decompressed buffer that contains the
  marker but no quote byte after the end of its first occurrence, the run is
  classified as UnterminatedValueError and produces no credential.\<close>

theorem unterminated_value:
  assumes "fetched net M" and "zlib_decompress M = Some V"
    and "first_occurrence G V n"
    and "absent quote (drop (n + length G) V)"
  shows "classify (E out net) = UnterminatedValueError \<and> snd (E out net) = None"
  by (simp add: E_scan [OF assms(1,2)] scan_unterminated [OF assms(3,4)] classify_def)

theorem unterminated_value_witness:
  "fetched (server 206 (zlib_store (G @ [97, 98]))) (zlib_store (G @ [97, 98]))
   \<and> zlib_decompress (zlib_store (G @ [97, 98])) = Some (G @ [97, 98])
   \<and> first_occurrence G (G @ [97, 98]) 0
   \<and> absent quote (drop (0 + length G) (G @ [97, 98]))
   \<and> classify (E utf8 (server 206 (zlib_store (G @ [97, 98])))) = UnterminatedValueError
   \<and> snd (E utf8 (server 206 (zlib_store (G @ [97, 98])))) = None"
proof -
  have a: "fetched (server 206 (zlib_store (G @ [97, 98]))) (zlib_store (G @ [97, 98]))"
    by (simp add: fetched_server)
  have b: "zlib_decompress (zlib_store (G @ [97, 98])) = Some (G @ [97, 98])"
    by (rule zlib_decompress_store) (simp add: length_G)
  have c: "first_occurrence G (G @ [97, 98]) 0"
    by (simp add: first_occurrence_0)
  have "absent quote [97, 98]"
    by (intro absent_Cons absent_Nil) (simp_all add: quote_eq)
  then have d: "absent quote (drop (0 + length G) (G @ [97, 98]))" by simp
  from a b c d unterminated_value [OF a b c d] show ?thesis by simp
qed

text \<open>C9 (empty credential): when the first occurrence of the marker is
  immediately followed by a quote byte, \<open>E\<close> succeeds, returns the empty string and
  prints it to standard output, and the process then prints the failure
  diagnostic to standard error and exits with code 1.\<close>

theorem empty_credential:
  assumes "fetched net M" and "zlib_decompress M = Some V"
    and "first_occurrence G V n"
    and "occurs_at quote V (n + length G)"
  shows "snd (E out net) = Some []
    \<and> last (fst (E out net)) = Print Stdout [Lit ''api key: '', Str []]
    \<and> main out net = (fst (E out net) @ [Print Stderr [Lit ''failed to extract api key'']], 1)"
proof -
  from assms(4) have "take (length quote) (drop (n + length G) V) = quote"
    by (simp add: occurs_at_def)
  then have q: "first_occurrence quote (drop (n + length G) V) 0"
    by (rule first_occurrence_0)
  have e: "E out net = (scan_trace M V @ [Bytes_find V quote (int n + len G),
      Print Stdout [Lit ''api key: '', Str []]], Some [])"
    by (simp add: E_scan [OF assms(1,2)] scan_terminated [OF assms(3) q] encodable_def)
  then show ?thesis by (simp add: main_def truthy_def)
qed

theorem empty_credential_witness:
  "fetched (server 206 (zlib_store (G @ quote))) (zlib_store (G @ quote))
   \<and> zlib_decompress (zlib_store (G @ quote)) = Some (G @ quote)
   \<and> first_occurrence G (G @ quote) 0
   \<and> occurs_at quote (G @ quote) (0 + length G)
   \<and> snd (E utf8 (server 206 (zlib_store (G @ quote)))) = Some []
   \<and> snd (main utf8 (server 206 (zlib_store (G @ quote)))) = 1"
proof -
  have a: "fetched (server 206 (zlib_store (G @ quote))) (zlib_store (G @ quote))"
    by (simp add: fetched_server)
  have b: "zlib_decompress (zlib_store (G @ quote)) = Some (G @ quote)"
    by (rule zlib_decompress_store) (simp add: length_G quote_eq)
  have c: "first_occurrence G (G @ quote) 0"
    by (simp add: first_occurrence_0)
  have d: "occurs_at quote (G @ quote) (0 + length G)"
    by (simp add: occurs_at_def)
  from a b c d empty_credential [OF a b c d] show ?thesis by simp
qed

text \<open>C10 (invalid UTF-8): when the bytes between the end of the first marker
  occurrence and the first following quote byte are not valid UTF-8, the decoding
  exception does not leave \<open>E\<close>: the catch-all handler prints a diagnostic to
  standard error, \<open>E\<close> returns no credential and the process exits with code 1.\<close>

theorem invalid_utf8_absorbed:
  assumes "fetched net M" and "zlib_decompress M = Some V"
    and "first_occurrence G V n"
    and "first_occurrence quote (drop (n + length G) V) k"
    and "utf8_decode (take k (drop (n + length G) V)) = None"
  shows "snd (E out net) = None \<and> classify (E out net) = UnclassifiedError
    \<and> last (fst (E out net)) = Print Stderr [Lit ''error: '', Exc UnicodeDecodeError]
    \<and> snd (main out net) = 1"
proof -
  have e: "E out net = (scan_trace M V @ [Bytes_find V quote (int n + len G),
      Print Stderr [Lit ''error: '', Exc UnicodeDecodeError]], None)"
    by (simp add: E_scan [OF assms(1,2)] scan_terminated [OF assms(3,4)] assms(5))
  then show ?thesis by (simp add: classify_def main_def truthy_def)
qed

theorem invalid_utf8_absorbed_witness:
  "fetched (server 206 (zlib_store (G @ [255] @ quote))) (zlib_store (G @ [255] @ quote))
   \<and> zlib_decompress (zlib_store (G @ [255] @ quote)) = Some (G @ [255] @ quote)
   \<and> first_occurrence G (G @ [255] @ quote) 0
   \<and> first_occurrence quote (drop (0 + length G) (G @ [255] @ quote)) 1
   \<and> utf8_decode (take 1 (drop (0 + length G) (G @ [255] @ quote))) = None
   \<and> snd (E utf8 (server 206 (zlib_store (G @ [255] @ quote)))) = None
   \<and> classify (E utf8 (server 206 (zlib_store (G @ [255] @ quote)))) = UnclassifiedError
   \<and> snd (main utf8 (server 206 (zlib_store (G @ [255] @ quote)))) = 1"
proof -
  let ?V = "G @ [255] @ quote"
  have a: "fetched (server 206 (zlib_store ?V)) (zlib_store ?V)"
    by (simp add: fetched_server)
  have b: "zlib_decompress (zlib_store ?V) = Some ?V"
    by (rule zlib_decompress_store) (simp add: length_G quote_eq)
  have c: "first_occurrence G ?V 0"
    by (simp add: first_occurrence_0)
  have "first_occurrence quote ([255] @ quote) (Suc 0)"
    unfolding append_Cons append_Nil
    by (intro first_occurrence_Cons first_occurrence_0) (simp_all add: quote_eq)
  then have d: "first_occurrence quote (drop (0 + length G) ?V) 1" by simp
  have e: "utf8_decode (take 1 (drop (0 + length G) ?V)) = None"
    by simp
  from a b c d e invalid_utf8_absorbed [OF a b c d e] show ?thesis by simp
qed




text \<open>C6 (fail-fast ordering): when the fetch fails, the only library call of the
  run is the one GET, so decompression and the marker scan are never attempted;
  when decompression fails, the calls are the GET and the one decompression, so
  the marker scan is never attempted; when both succeed, the calls start with the
  GET, the decompression and the scan for the marker, in this order; every run
  makes exactly one GET and at most one decompression (no retry), and a failed
  step ends the run with no credential.\<close>

theorem fail_fast:
  "(fetch_failed net \<longrightarrow> calls (fst (E out net)) = [Http_get get_request] \<and> snd (E out net) = None)
   \<and> (fetched net M \<longrightarrow> zlib_decompress M = None \<longrightarrow>
        calls (fst (E out net)) = [Http_get get_request, Zlib_decompress M] \<and> snd (E out net) = None)
   \<and> (fetched net M \<longrightarrow> zlib_decompress M = Some V \<longrightarrow>
        take 3 (calls (fst (E out net)))
          = [Http_get get_request, Zlib_decompress M, Bytes_find V G 0])
   \<and> filter is_get (fst (E out net)) = [Http_get get_request]
   \<and> length (filter is_decompress (fst (E out net))) \<le> 1"
proof (intro conjI impI)
  assume "fetch_failed net"
  from E_fetch_failed [OF this] obtain e where e: "E out net = handler fetch_trace e" by blast
  show "calls (fst (E out net)) = [Http_get get_request]"
    by (simp add: e handler_eq calls_append calls_fetch_trace) (simp add: calls_def)
  show "snd (E out net) = None" by (simp add: e handler_eq)
next
  assume f: "fetched net M" and z: "zlib_decompress M = None"
  show "calls (fst (E out net)) = [Http_get get_request, Zlib_decompress M]"
    by (simp add: E_decompress_failed [OF f z] calls_append calls_fetched_trace)
       (simp add: calls_def)
  show "snd (E out net) = None" by (simp add: E_decompress_failed [OF f z])
next
  assume f: "fetched net M" and z: "zlib_decompress M = Some V"
  from extract_value_shape [of out M V] obtain rest r where
    "extract_value out (fetched_trace M) V = (scan_trace M V @ rest, r)" by blast
  then show "take 3 (calls (fst (E out net)))
      = [Http_get get_request, Zlib_decompress M, Bytes_find V G 0]"
    by (simp add: E_fetched [OF f] decompress_step_Some [OF z] calls_append calls_scan_trace)
next
  show "filter is_get (fst (E out net)) = [Http_get get_request]" by (rule gets_E)
next
  from E_trace_shape [of out net]
  show "length (filter is_decompress (fst (E out net))) \<le> 1"
    by (auto simp: fetch_trace_def)
qed

theorem fail_fast_witness:
  "fetch_failed (server 404 [])
   \<and> calls (fst (E utf8 (server 404 []))) = [Http_get get_request]
   \<and> snd (E utf8 (server 404 [])) = None
   \<and> fetched (server 200 [1, 2]) [1, 2]
   \<and> zlib_decompress [1, 2] = None
   \<and> calls (fst (E utf8 (server 200 [1, 2]))) = [Http_get get_request, Zlib_decompress [1, 2]]
   \<and> snd (E utf8 (server 200 [1, 2])) = None"
proof -
  have a: "fetch_failed (server 404 [])"
    by (simp add: fetch_failed_def server_def raise_for_status_def)
  have b: "fetched (server 200 [1, 2]) [1, 2]"
    by (simp add: fetched_server)
  have c: "zlib_decompress [1, 2] = None"
    by (simp add: zlib_decompress_def)
  from fail_fast [where net = "server 404 []" and out = utf8 and M = "[]" and V = "[]"] a
  have d: "calls (fst (E utf8 (server 404 []))) = [Http_get get_request]
      \<and> snd (E utf8 (server 404 [])) = None" by blast
  from fail_fast [where net = "server 200 [1, 2]" and out = utf8 and M = "[1, 2]" and V = "[]"] b c
  have e: "calls (fst (E utf8 (server 200 [1, 2]))) = [Http_get get_request, Zlib_decompress [1, 2]]
      \<and> snd (E utf8 (server 200 [1, 2])) = None" by blast
  from a b c d e show ?thesis by simp
qed

text \<open>C8, as amended (network contract): every run makes exactly one call of
  \<^verbatim>\<open>requests.get\<close>, for the fixed URL, with the header
  \<^verbatim>\<open>Range: bytes=82926761-83010957\<close> (offset 82926761, length 84196) and the
  timeout 30. The call follows redirects: the HTTP GETs of a run are those of
  this call, the first of them the GET of the fixed URL, every one with the same
  header and timeout, at most 31 in all; there is exactly one when the transport
  fails or the first reply is not a redirect, and when it is a redirect the
  second GET goes to its target. A \<^verbatim>\<open>RequestException\<close> raised by the call (an
  error of the transport, too many redirects) and every final HTTP status from
  400 to 599 are classified as NetworkError and end the run with no credential
  and no further call. Every other final status is not classified as
  NetworkError: the run goes on to decompress the body.\<close>

theorem ranged_get:
  "filter is_get (fst (E out (via srv))) = [Http_get get_request]
   \<and> url get_request
       = ''https://curseforge.overwolf.com/electron/linux/CurseForge-0.198.1-21.AppImage''
   \<and> headers get_request = [(''Range'', ''bytes=82926761-83010957'')]
   \<and> timeout get_request = 30
   \<and> D = 82926761 \<and> K = 84196
   \<and> http_gets srv (fst (E out (via srv))) = wire srv get_request
   \<and> hd (wire srv get_request) = get_request
   \<and> 1 \<le> length (wire srv get_request) \<and> length (wire srv get_request) \<le> 31
   \<and> (\<forall>w \<in> set (wire srv get_request).
         headers w = headers get_request \<and> timeout w = timeout get_request)
   \<and> (\<forall>e. srv get_request = Inl e \<longrightarrow> wire srv get_request = [get_request])
   \<and> (\<forall>r. srv get_request = Inr r \<longrightarrow> get_redirect_target r = None \<longrightarrow>
         wire srv get_request = [get_request])
   \<and> (\<forall>r u. srv get_request = Inr r \<longrightarrow> get_redirect_target r = Some u \<longrightarrow>
         take 2 (wire srv get_request) = [get_request, get_request\<lparr>url := u\<rparr>])
   \<and> (\<forall>c. via srv get_request = Inl (RequestException c) \<longrightarrow>
         classify (E out (via srv)) = NetworkError \<and> snd (E out (via srv)) = None
         \<and> calls (fst (E out (via srv))) = [Http_get get_request])
   \<and> (\<forall>L. via srv get_request = Inr L \<longrightarrow> 400 \<le> status_code L \<longrightarrow> status_code L < 600 \<longrightarrow>
         classify (E out (via srv)) = NetworkError \<and> snd (E out (via srv)) = None
         \<and> calls (fst (E out (via srv))) = [Http_get get_request])
   \<and> (\<forall>L. via srv get_request = Inr L \<longrightarrow>
         \<not> (400 \<le> status_code L \<and> status_code L < 600) \<longrightarrow>
         classify (E out (via srv)) \<noteq> NetworkError
         \<and> take 2 (calls (fst (E out (via srv))))
             = [Http_get get_request, Zlib_decompress (content L)])"
proof -
  let ?net = "via srv"
  have n: "classify (E out ?net) = NetworkError \<and> snd (E out ?net) = None
      \<and> calls (fst (E out ?net)) = [Http_get get_request]"
    if "?net get_request = Inl (RequestException c)
      \<or> (\<exists>L. ?net get_request = Inr L \<and> 400 \<le> status_code L \<and> status_code L < 600)" for c
  proof -
    from E_network_error [of ?net c out, OF that] obtain c' where
      "E out ?net = (fetch_trace @ [Print Stderr [Lit ''network error: '',
                                 Exc (RequestException c')]], None)" by blast
    then show ?thesis
      by (simp add: classify_def calls_append calls_fetch_trace) (simp add: calls_def)
  qed
  have g: "filter is_get (fst (E out ?net)) = [Http_get get_request]" by (rule gets_E)
  have q: "url get_request
       = ''https://curseforge.overwolf.com/electron/linux/CurseForge-0.198.1-21.AppImage''
     \<and> headers get_request = [(''Range'', ''bytes=82926761-83010957'')]
     \<and> timeout get_request = 30 \<and> D = 82926761 \<and> K = 84196"
    by (simp add: request_eq J_def D_def K_def)
  have w1: "http_gets srv (fst (E out ?net)) = wire srv get_request" by (rule http_gets_E)
  have w2: "hd (wire srv get_request) = get_request
      \<and> 1 \<le> length (wire srv get_request) \<and> length (wire srv get_request) \<le> 31"
    using wire_first [of srv get_request] wire_length [of srv get_request]
    by (cases "wire srv get_request") simp_all
  have w3: "\<forall>w \<in> set (wire srv get_request).
      headers w = headers get_request \<and> timeout w = timeout get_request"
    using wire_same by blast
  have w4: "\<forall>e. srv get_request = Inl e \<longrightarrow> wire srv get_request = [get_request]"
    using wire_error by blast
  have w5: "\<forall>r. srv get_request = Inr r \<longrightarrow> get_redirect_target r = None \<longrightarrow>
      wire srv get_request = [get_request]"
    using wire_single by blast
  have w6: "\<forall>r u. srv get_request = Inr r \<longrightarrow> get_redirect_target r = Some u \<longrightarrow>
      take 2 (wire srv get_request) = [get_request, get_request\<lparr>url := u\<rparr>]"
    using wire_redirected by blast
  have e1: "\<forall>c. ?net get_request = Inl (RequestException c) \<longrightarrow>
      classify (E out ?net) = NetworkError \<and> snd (E out ?net) = None
      \<and> calls (fst (E out ?net)) = [Http_get get_request]"
    using n by blast
  have e2: "\<forall>L. ?net get_request = Inr L \<longrightarrow> 400 \<le> status_code L \<longrightarrow> status_code L < 600 \<longrightarrow>
      classify (E out ?net) = NetworkError \<and> snd (E out ?net) = None
      \<and> calls (fst (E out ?net)) = [Http_get get_request]"
    using n by blast
  have e3: "\<forall>L. ?net get_request = Inr L \<longrightarrow>
      \<not> (400 \<le> status_code L \<and> status_code L < 600) \<longrightarrow>
      classify (E out ?net) \<noteq> NetworkError
      \<and> take 2 (calls (fst (E out ?net)))
          = [Http_get get_request, Zlib_decompress (content L)]"
    using E_fetched_outcome [OF fetched_status] by blast
  from g q w1 w2 w3 w4 w5 w6 e1 e2 e3 show ?thesis by (intro conjI) blast+
qed

theorem ranged_get_witness:
  "http_server 404 [] get_request = Inr \<lparr>status = 404, location = None, body = []\<rparr>
   \<and> get_redirect_target \<lparr>status = 404, location = None, body = []\<rparr> = None
   \<and> wire (http_server 404 []) get_request = [get_request]
   \<and> via (http_server 404 []) get_request = Inr \<lparr>status_code = 404, content = []\<rparr>
   \<and> classify (E utf8 (via (http_server 404 []))) = NetworkError
   \<and> snd (E utf8 (via (http_server 404 []))) = None
   \<and> calls (fst (E utf8 (via (http_server 404 [])))) = [Http_get get_request]
   \<and> via (looping_server J) get_request = Inl (RequestException ''TooManyRedirects'')
   \<and> length (wire (looping_server J) get_request) = 31
   \<and> classify (E utf8 (via (looping_server J))) = NetworkError
   \<and> via (http_server 200 [1, 2]) get_request = Inr \<lparr>status_code = 200, content = [1, 2]\<rparr>
   \<and> classify (E utf8 (via (http_server 200 [1, 2]))) \<noteq> NetworkError
   \<and> take 2 (calls (fst (E utf8 (via (http_server 200 [1, 2])))))
       = [Http_get get_request, Zlib_decompress [1, 2]]"
proof -
  have a: "http_server 404 [] get_request = Inr \<lparr>status = 404, location = None, body = []\<rparr>"
    by (simp add: http_server_def)
  have b: "get_redirect_target \<lparr>status = 404, location = None, body = []\<rparr> = None"
    by (simp add: get_redirect_target_def)
  have c: "via (http_server 404 []) get_request = Inr \<lparr>status_code = 404, content = []\<rparr>"
    by (simp add: via_http_server server_def)
  have d: "via (looping_server J) get_request = Inl (RequestException ''TooManyRedirects'')
      \<and> length (wire (looping_server J) get_request) = 31"
    by (simp add: via_def wire_def requests_get_def resolve_redirects.simps looping_server_def
        get_redirect_target_def max_redirects_def J_def)
  have e: "via (http_server 200 [1, 2]) get_request = Inr \<lparr>status_code = 200, content = [1, 2]\<rparr>"
    by (simp add: via_http_server server_def)
  note t1 = ranged_get [where srv = "http_server 404 []" and out = utf8]
  note t2 = ranged_get [where srv = "looping_server J" and out = utf8]
  note t3 = ranged_get [where srv = "http_server 200 [1, 2]" and out = utf8]
  from t1 a b have f: "wire (http_server 404 []) get_request = [get_request]" by blast
  from t1 c have g: "classify (E utf8 (via (http_server 404 []))) = NetworkError
      \<and> snd (E utf8 (via (http_server 404 []))) = None
      \<and> calls (fst (E utf8 (via (http_server 404 [])))) = [Http_get get_request]"
    by simp
  from t2 d have h: "classify (E utf8 (via (looping_server J))) = NetworkError" by blast
  from t3 e have i: "classify (E utf8 (via (http_server 200 [1, 2]))) \<noteq> NetworkError
      \<and> take 2 (calls (fst (E utf8 (via (http_server 200 [1, 2])))))
          = [Http_get get_request, Zlib_decompress [1, 2]]"
    by simp
  from a b c d e f g h i show ?thesis by simp
qed

text \<open>The claim C8 as stated fails twice. A server that redirects the fixed URL
  to another one makes the run issue two GETs, the second to the other URL. A
  server that answers 304 (not a success status) with an empty body is not
  classified as NetworkError: the run calls \<^verbatim>\<open>zlib.decompress\<close> and reports a
  decompression error.\<close>

theorem redirect_and_status_304:
  "http_gets (moved_server ''https://mirror.example/CurseForge.AppImage'' [])
       (fst (E utf8 (via (moved_server ''https://mirror.example/CurseForge.AppImage'' []))))
     = [get_request, get_request\<lparr>url := ''https://mirror.example/CurseForge.AppImage''\<rparr>]
   \<and> url (get_request\<lparr>url := ''https://mirror.example/CurseForge.AppImage''\<rparr>) \<noteq> J
   \<and> via (http_server 304 []) get_request = Inr \<lparr>status_code = 304, content = []\<rparr>
   \<and> classify (E utf8 (via (http_server 304 []))) = DecompressionError
   \<and> calls (fst (E utf8 (via (http_server 304 []))))
       = [Http_get get_request, Zlib_decompress []]"
proof -
  let ?u = "''https://mirror.example/CurseForge.AppImage''"
  have j: "?u \<noteq> J" by (simp add: J_def)
  have w: "wire (moved_server ?u []) get_request = [get_request, get_request\<lparr>url := ?u\<rparr>]"
    using j
    by (simp add: wire_def requests_get_def resolve_redirects.simps moved_server_def
        get_redirect_target_def max_redirects_def get_request_def)
  have h: "http_gets (moved_server ?u []) (fst (E utf8 (via (moved_server ?u []))))
      = [get_request, get_request\<lparr>url := ?u\<rparr>]"
    by (simp only: http_gets_E w)
  have f: "fetched (server 304 []) []" by (simp add: fetched_server)
  have z: "zlib_decompress [] = None" by (simp add: zlib_decompress_def)
  note e = E_decompress_failed [OF f z]
  have "via (http_server 304 []) get_request = Inr \<lparr>status_code = 304, content = []\<rparr>"
    by (simp add: via_http_server server_def)
  moreover have "classify (E utf8 (via (http_server 304 []))) = DecompressionError"
    by (simp add: via_http_server e classify_def)
  moreover have "calls (fst (E utf8 (via (http_server 304 []))))
      = [Http_get get_request, Zlib_decompress []]"
    by (simp add: via_http_server e calls_append calls_fetched_trace) (simp add: calls_def)
  ultimately show ?thesis using h j by simp
qed

text \<open>C1, as amended (decompression step): \<open>E\<close> decompresses the fetched bytes with
  \<^verbatim>\<open>zlib.decompress\<close>, that is, as a zlib stream. Whenever \<^verbatim>\<open>zlib.decompress\<close>
  accepts the fetched bytes, the run proceeds to the marker scan on the
  decompressed buffer; whenever it raises, the run is classified as
  DecompressionError, ends with no credential and makes no scan. (A raw deflate
  stream is not a zlib stream: the counterexample is a valid raw deflate stream
  that \<^verbatim>\<open>zlib.decompress\<close> refuses.)\<close>

theorem decompression_step_outcome:
  assumes "fetched net M"
  shows "(\<forall>V. zlib_decompress M = Some V \<longrightarrow>
            E out net = extract_value out (fetched_trace M) V
            \<and> take 3 (calls (fst (E out net)))
                = [Http_get get_request, Zlib_decompress M, Bytes_find V G 0])
    \<and> (zlib_decompress M = None \<longrightarrow>
          classify (E out net) = DecompressionError \<and> snd (E out net) = None
          \<and> calls (fst (E out net)) = [Http_get get_request, Zlib_decompress M])"
proof (intro conjI allI impI)
  fix V assume z: "zlib_decompress M = Some V"
  show e: "E out net = extract_value out (fetched_trace M) V"
    by (simp add: E_fetched [OF assms] decompress_step_Some [OF z])
  from extract_value_shape [of out M V] obtain rest r where
    "extract_value out (fetched_trace M) V = (scan_trace M V @ rest, r)" by blast
  then show "take 3 (calls (fst (E out net)))
      = [Http_get get_request, Zlib_decompress M, Bytes_find V G 0]"
    by (simp add: e calls_append calls_scan_trace)
next
  assume z: "zlib_decompress M = None"
  note e = E_decompress_failed [OF assms z]
  show "classify (E out net) = DecompressionError" by (simp add: e classify_def)
  show "snd (E out net) = None" by (simp add: e)
  show "calls (fst (E out net)) = [Http_get get_request, Zlib_decompress M]"
    by (simp add: e calls_append calls_fetched_trace) (simp add: calls_def)
qed

theorem decompression_step_outcome_witness:
  "fetched (server 206 (zlib_store [123, 125])) (zlib_store [123, 125])
   \<and> zlib_decompress (zlib_store [123, 125]) = Some [123, 125]
   \<and> take 3 (calls (fst (E utf8 (server 206 (zlib_store [123, 125])))))
       = [Http_get get_request, Zlib_decompress (zlib_store [123, 125]),
          Bytes_find [123, 125] G 0]
   \<and> fetched (server 206 [120, 156, 255]) [120, 156, 255]
   \<and> zlib_decompress [120, 156, 255] = None
   \<and> classify (E utf8 (server 206 [120, 156, 255])) = DecompressionError
   \<and> snd (E utf8 (server 206 [120, 156, 255])) = None"
proof -
  have a: "fetched (server 206 (zlib_store [123, 125])) (zlib_store [123, 125])"
    by (simp add: fetched_server)
  have b: "zlib_decompress (zlib_store [123, 125]) = Some [123, 125]"
    by (simp add: zlib_decompress_store)
  have c: "fetched (server 206 [120, 156, 255]) [120, 156, 255]"
    by (simp add: fetched_server)
  have d: "zlib_decompress [120, 156, 255] = None"
    by (simp add: zlib_decompress_def inflate_blocks.simps read_bits_def bits_of_bytes_def
        bits_of_byte_def upt_rec inflate_block_def)
  from decompression_step_outcome [OF a] b
  have e: "take 3 (calls (fst (E utf8 (server 206 (zlib_store [123, 125])))))
       = [Http_get get_request, Zlib_decompress (zlib_store [123, 125]),
          Bytes_find [123, 125] G 0]" by blast
  from decompression_step_outcome [OF c] d
  have f: "classify (E utf8 (server 206 [120, 156, 255])) = DecompressionError
      \<and> snd (E utf8 (server 206 [120, 156, 255])) = None" by blast
  from a b c d e f show ?thesis by simp
qed

text \<open>The claim C1 as stated fails: the bytes \<^verbatim>\<open>01 00 00 ff ff\<close> are a valid raw
  deflate stream (one final stored block of length 0, which inflates to the empty
  buffer), and \<^verbatim>\<open>zlib.decompress\<close> refuses them for their header check.\<close>

theorem raw_deflate_rejected:
  "raw_inflate [1, 0, 0, 255, 255] = Some []
   \<and> zlib_decompress [1, 0, 0, 255, 255] = None
   \<and> classify (E utf8 (server 206 [1, 0, 0, 255, 255])) = DecompressionError
   \<and> snd (E utf8 (server 206 [1, 0, 0, 255, 255])) = None"
proof -
  have r: "raw_inflate [1, 0, 0, 255, 255] = Some []"
    by (simp add: raw_inflate_def inflate_blocks.simps read_bits_def bits_of_bytes_def
        bits_of_byte_def upt_rec inflate_block_def inflate_stored_def align_byte_def Let_def)
  have f: "fetched (server 206 [1, 0, 0, 255, 255]) [1, 0, 0, 255, 255]"
    by (simp add: fetched_server)
  have z: "zlib_decompress [1, 0, 0, 255, 255] = None"
    by (simp add: zlib_decompress_def)
  show ?thesis
    by (simp add: r z E_decompress_failed [OF f z] classify_def)
qed

text \<open>C2, as amended (process contract): when \<open>E\<close> returns a credential that is
  not empty, the exit code is 0, the last line printed is the credential, on
  standard output, and nothing is printed to standard error; on any failure
  (\<open>E\<close> returns no credential: network, decompression, marker not found,
  unterminated value, or another exception), the exit code is 1, diagnostics are
  printed to standard error and no credential is printed.\<close>

theorem exit_status:
  "(\<forall>Q. snd (E out net) = Some Q \<longrightarrow> Q \<noteq> [] \<longrightarrow>
      snd (main out net) = 0
      \<and> last (fst (main out net)) = Print Stdout [Lit ''api key: '', Str Q]
      \<and> stderr_lines (fst (main out net)) = [])
   \<and> (snd (E out net) = None \<longrightarrow>
        snd (main out net) = 1
        \<and> stderr_lines (fst (main out net)) \<noteq> []
        \<and> (\<forall>qs. Print Stdout (Lit ''api key: '' # qs) \<notin> set (fst (main out net))))"
proof (intro conjI allI impI)
  fix Q assume q: "snd (E out net) = Some Q" "Q \<noteq> []"
  then have m: "main out net = (fst (E out net), 0)"
    by (cases "E out net") (simp add: main_def truthy_def)
  from m show "snd (main out net) = 0" by simp
  from m q E_result [of out net]
  show "last (fst (main out net)) = Print Stdout [Lit ''api key: '', Str Q]" by simp
  from m q E_result [of out net] show "stderr_lines (fst (main out net)) = []" by simp
next
  assume n: "snd (E out net) = None"
  note m = main_failure [OF n]
  from m show "snd (main out net) = 1" by simp
  from m show "stderr_lines (fst (main out net)) \<noteq> []" by (simp add: stderr_lines_append)
  fix qs
  from m n E_result [of out net]
  show "Print Stdout (Lit ''api key: '' # qs) \<notin> set (fst (main out net))" by simp
qed

theorem exit_status_witness:
  "snd (E utf8 (server 206 (zlib_store scenario_A))) = Some [97, 98, 99, 49, 50, 51, 88, 89, 90]
   \<and> snd (main utf8 (server 206 (zlib_store scenario_A))) = 0
   \<and> last (fst (main utf8 (server 206 (zlib_store scenario_A))))
       = Print Stdout [Lit ''api key: '', Str [97, 98, 99, 49, 50, 51, 88, 89, 90]]
   \<and> snd (E utf8 (server 404 [])) = None
   \<and> snd (main utf8 (server 404 [])) = 1
   \<and> stderr_lines (fst (main utf8 (server 404 [])))
       = [[Lit ''network error: '', Exc (RequestException ''HTTPError'')],
          [Lit ''failed to extract api key'']]"
proof -
  have a: "snd (E utf8 (server 206 (zlib_store scenario_A)))
      = Some [97, 98, 99, 49, 50, 51, 88, 89, 90]"
    by (simp add: E_scenario_A)
  have b: "E utf8 (server 404 []) = (fetch_trace
      @ [Print Stderr [Lit ''network error: '', Exc (RequestException ''HTTPError'')]], None)"
    by (simp add: E_def server_def raise_for_status_def handler_def)
  then have c: "snd (E utf8 (server 404 [])) = None" by simp
  from exit_status [where net = "server 206 (zlib_store scenario_A)" and out = utf8] a
  have d: "snd (main utf8 (server 206 (zlib_store scenario_A))) = 0
      \<and> last (fst (main utf8 (server 206 (zlib_store scenario_A))))
          = Print Stdout [Lit ''api key: '', Str [97, 98, 99, 49, 50, 51, 88, 89, 90]]"
    by simp
  from exit_status [where net = "server 404 []" and out = utf8] c
  have e: "snd (main utf8 (server 404 [])) = 1" by simp
  have f: "stderr_lines (fst (main utf8 (server 404 [])))
       = [[Lit ''network error: '', Exc (RequestException ''HTTPError'')],
          [Lit ''failed to extract api key'']]"
    by (simp add: main_failure [OF c] b stderr_lines_append fetch_trace_def)
  from a c d e f show ?thesis by simp
qed

text \<open>The claim C2 as stated fails: for the buffer made of the marker and one
  quote byte, \<open>E\<close> succeeds with the empty credential and prints it, and the exit
  code is 1.\<close>

theorem empty_credential_exit_code:
  "snd (E utf8 (server 206 (zlib_store (G @ quote)))) = Some []
   \<and> last (fst (E utf8 (server 206 (zlib_store (G @ quote)))))
       = Print Stdout [Lit ''api key: '', Str []]
   \<and> snd (main utf8 (server 206 (zlib_store (G @ quote)))) = 1"
  by (simp add: E_empty_value main_def truthy_def)

end
